theory Spec2Isabelle
  imports Main "HOL-Library.Sublist"
begin

section \<open>Data model\<close>

text \<open>
  The structs of package \<open>api\<close> are used by the sources through their fields only; each
  record below lists the fields the code reads.  Go's \<open>int\<close> is modelled as \<open>int\<close>
  (no arithmetic of the program comes near the 64-bit bounds), Go strings as \<open>string\<close>,
  an \<open>error\<close> value as the text of its message, and a returned pair \<open>(value, err)\<close> whose
  value is dropped by every caller when \<open>err \<noteq> nil\<close> as a sum with \<open>Inl\<close> for the error.
  A string is the list of its bytes; where the code counts code points, in the pattern of
  \<open>guessFileName\<close>, the model decodes UTF-8 as Go does.  Output written with
  \<open>log.Printf\<close> and \<open>fmt.Printf\<close> is not part of the model.
\<close>

type_synonym error = string

record Episode =
  SeasonNumber :: int
  EpisodeNumber :: int

record StatusMessage =
  Title :: string

record QueueElement =
  q_ID :: int
  q_Title :: string
  q_Status :: string
  q_TrackedDownloadStatus :: string
  q_DownloadID :: string
  q_Episode :: Episode
  q_SeriesPath :: string
  q_StatusMessages :: "StatusMessage list"

record HistoryRecord =
  h_DownloadID :: string
  h_Episode :: Episode
  h_TrackedDownloadStatus :: string
  h_SourceTitle :: string

record History =
  Page :: int
  PageSize :: int
  Records :: "HistoryRecord list"

record Show =
  HistoryRecord :: HistoryRecord
  QueueElement :: QueueElement
  HasBeenRenamed :: bool

definition StatusCompleted :: string where
  "StatusCompleted = ''Completed''"

definition TrackedDownloadStatusWarning :: string where
  "TrackedDownloadStatusWarning = ''Warning''"

section \<open>Matching queue entries with history records\<close>

text \<open>
  The transport below \<open>GetHistory\<close> (\<open>get\<close> and \<open>json.Unmarshal\<close>) is a parameter: for a
  page number it gives either the error of \<open>get\<close> or the decoded \<open>History\<close> together with
  the error of \<open>json.Unmarshal\<close>, if any.
\<close>

type_synonym transport = "int \<Rightarrow> error + (History \<times> error option)"

definition GetHistory :: "transport \<Rightarrow> int \<Rightarrow> error + History" where
  "GetHistory fetch page =
     (case fetch page of
        Inl err \<Rightarrow> Inl err
      | Inr (history, err) \<Rightarrow>
          if PageSize history = 0 then Inl ''history fetched 0 results, no more items''
          else (case err of Some e \<Rightarrow> Inl e | None \<Rightarrow> Inr history))"

definition addPageToHistory :: "transport \<Rightarrow> History \<Rightarrow> error + History" where
  "addPageToHistory fetch h =
     (let newPage = Page h + 1 in
      case GetHistory fetch newPage of
        Inl err \<Rightarrow> Inl err
      | Inr newHistory \<Rightarrow>
          Inr (h\<lparr>Records := Records h @ Records newHistory, Page := newPage\<rparr>))"

definition sameShow :: "QueueElement \<Rightarrow> HistoryRecord \<Rightarrow> bool" where
  "sameShow q he =
     (let sameDownloadID = (q_DownloadID q = h_DownloadID he);
          sameEpisode = (EpisodeNumber (q_Episode q) = EpisodeNumber (h_Episode he));
          sameSeason = (SeasonNumber (q_Episode q) = SeasonNumber (h_Episode he))
      in sameDownloadID \<and> sameSeason \<and> sameEpisode)"

text \<open>
  The inner \<open>for _, he := range history.Records\<close> loop: the state is the pair of the flag
  \<open>found\<close> and the slice \<open>shows\<close>.  The loop has no \<open>break\<close>.
\<close>

primrec scanHistory ::
  "QueueElement \<Rightarrow> HistoryRecord list \<Rightarrow> bool \<times> Show list \<Rightarrow> bool \<times> Show list" where
  "scanHistory q [] st = st"
| "scanHistory q (he # hs) st =
     scanHistory q hs
       (if sameShow q he
        then (True, snd st @ [\<lparr>HistoryRecord = he, QueueElement = q, HasBeenRenamed = False\<rparr>])
        else st)"

text \<open>
  The outer loop \<open>for i := 0; i < len(queue); i++\<close>.  When nothing was found the code
  decrements \<open>i\<close>, fetches the next page and lets the loop increment \<open>i\<close> again, so the same
  index is scanned once more; an error of \<open>addPageToHistory\<close> leaves the function.  The
  loop runs for as long as the history source keeps delivering pages without a match, so
  not returning is the value \<open>None\<close>.
\<close>

partial_function (option) loadLoop ::
  "transport \<Rightarrow> QueueElement list \<Rightarrow> nat \<Rightarrow> History \<Rightarrow> Show list \<Rightarrow> (error + Show list) option"
where
  "loadLoop fetch queue i history shows =
     (if i < length queue then
        (let isNotCompleted = (q_Status (queue ! i) \<noteq> StatusCompleted);
             isNotFailed = (q_TrackedDownloadStatus (queue ! i) \<noteq> TrackedDownloadStatusWarning)
         in if isNotCompleted \<or> isNotFailed then loadLoop fetch queue (i + 1) history shows
            else (case scanHistory (queue ! i) (Records history) (False, shows) of
                    (found, shows') \<Rightarrow>
                      if \<not> found then
                        (case addPageToHistory fetch history of
                           Inl err \<Rightarrow> Some (Inl err)
                         | Inr history' \<Rightarrow> loadLoop fetch queue i history' shows')
                      else loadLoop fetch queue (i + 1) history shows'))
      else Some (Inr shows))"

definition loadFailedShows ::
  "(error + QueueElement list) \<Rightarrow> transport \<Rightarrow> (error + Show list) option" where
  "loadFailedShows GetQueue fetch =
     (case GetQueue of
        Inl err \<Rightarrow> Some (Inl err)
      | Inr queue \<Rightarrow>
          (case GetHistory fetch 1 of
             Inl err \<Rightarrow> Some (Inl err)
           | Inr history \<Rightarrow> loadLoop fetch queue 0 history []))"


text \<open>
  \<open>mkShow\<close> is the literal \<open>Show{HistoryRecord: he, QueueElement: queue[i]}\<close> and
  \<open>isCandidate\<close> the negation of the guard \<open>isNotCompleted || isNotFailed\<close>; both are
  used to state properties only.
\<close>

definition mkShow :: "QueueElement \<Rightarrow> HistoryRecord \<Rightarrow> Show" where
  "mkShow q he = \<lparr>HistoryRecord = he, QueueElement = q, HasBeenRenamed = False\<rparr>"

definition isCandidate :: "QueueElement \<Rightarrow> bool" where
  "isCandidate q =
     (q_Status q = StatusCompleted \<and> q_TrackedDownloadStatus q = TrackedDownloadStatusWarning)"

definition noMoreItems :: error where
  "noMoreItems = ''history fetched 0 results, no more items''"

text \<open>A \<open>Show\<close> that pairs a candidate of the queue with a history record of the same show.\<close>

definition emitted :: "QueueElement list \<Rightarrow> Show \<Rightarrow> bool" where
  "emitted queue s =
     (\<exists>i he. i < length queue \<and> isCandidate (queue ! i) \<and> sameShow (queue ! i) he \<and>
        s = mkShow (queue ! i) he)"

section \<open>Formatting numbers\<close>

text \<open>
  \<open>fmt.Sprintf\<close> with the verbs \<open>%d\<close> and \<open>%.2d\<close>: the decimal digits of the number, for
  \<open>%.2d\<close> filled with zeros on the left to at least two digits, after a minus sign for a
  negative number.
\<close>

definition digit_char :: "nat \<Rightarrow> char" where
  "digit_char d =
     (if d = 0 then CHR ''0'' else if d = 1 then CHR ''1'' else if d = 2 then CHR ''2''
      else if d = 3 then CHR ''3'' else if d = 4 then CHR ''4'' else if d = 5 then CHR ''5''
      else if d = 6 then CHR ''6'' else if d = 7 then CHR ''7'' else if d = 8 then CHR ''8''
      else CHR ''9'')"

fun decimal :: "nat \<Rightarrow> string" where
  "decimal n = (if n < 10 then [digit_char n] else decimal (n div 10) @ [digit_char (n mod 10)])"

declare decimal.simps [simp del]

definition Sprintf_d :: "int \<Rightarrow> string" where
  "Sprintf_d n = (if n < 0 then CHR ''-'' # decimal (nat (- n)) else decimal (nat n))"

definition Sprintf_02d :: "int \<Rightarrow> string" where
  "Sprintf_02d n =
     (let ds = decimal (nat \<bar>n\<bar>);
          padded = replicate (2 - length ds) CHR ''0'' @ ds
      in if n < 0 then CHR ''-'' # padded else padded)"

section \<open>Guessing the file name on disk\<close>

text \<open>
  The pattern of \<open>guessFileName\<close> is \<open>fmt.Sprintf("%d.{0,4}%d", season, episode)\<close>: the
  season number written out, between zero and four characters, the episode number written
  out.  The digits and the minus sign of \<open>%d\<close> stand for themselves in a regular
  expression.  The dot of Go's \<open>regexp\<close> accepts one code point that is not the line feed.
  The matcher reads the title as UTF-8 the way \<open>utf8.DecodeRuneInString\<close> does: a
  well-formed encoding of two to four bytes is one code point, and a byte that starts no
  well-formed encoding is a code point of its own, one byte wide.  \<open>runeWidth t\<close> is the
  number of bytes of the first code point of \<open>t\<close>.
\<close>

definition continuation :: "char \<Rightarrow> bool" where
  "continuation c = (0x80 \<le> (of_char c :: nat) \<and> (of_char c :: nat) \<le> 0xBF)"

definition secondByte :: "nat \<Rightarrow> char \<Rightarrow> bool" where
  "secondByte b c =
     (let lo = (if b = 0xE0 then 0xA0 else if b = 0xF0 then 0x90 else 0x80);
          hi = (if b = 0xED then 0x9F else if b = 0xF4 then 0x8F else 0xBF)
      in lo \<le> (of_char c :: nat) \<and> (of_char c :: nat) \<le> hi)"

definition runeWidth :: "string \<Rightarrow> nat" where
  "runeWidth t =
     (case t of
        [] \<Rightarrow> 0
      | c # cs \<Rightarrow>
          (let b = (of_char c :: nat) in
           if 0xC2 \<le> b \<and> b \<le> 0xDF then
             (case cs of
                c1 # rest \<Rightarrow> if secondByte b c1 then 2 else 1
              | [] \<Rightarrow> 1)
           else if 0xE0 \<le> b \<and> b \<le> 0xEF then
             (case cs of
                c1 # c2 # rest \<Rightarrow> if secondByte b c1 \<and> continuation c2 then 3 else 1
              | _ \<Rightarrow> 1)
           else if 0xF0 \<le> b \<and> b \<le> 0xF4 then
             (case cs of
                c1 # c2 # c3 # rest \<Rightarrow>
                  if secondByte b c1 \<and> continuation c2 \<and> continuation c3 then 4 else 1
              | _ \<Rightarrow> 1)
           else 1))"

text \<open>
  \<open>dotStep t\<close> is what is left of \<open>t\<close> after the dot has accepted its first code point,
  and \<open>skipDots k t\<close> what is left after \<open>k\<close> dots.  \<open>matchAt a b t\<close> says that \<open>t\<close>
  starts with a match of \<open>a.{0,4}b\<close>; \<open>regexp_MatchString\<close> tries every position of the
  title, as the unanchored \<open>regex.MatchString\<close> does (\<open>a\<close> starts with a digit or a minus
  sign, which is never a byte inside a longer code point).
\<close>

definition dotStep :: "string \<Rightarrow> string option" where
  "dotStep t =
     (case t of
        [] \<Rightarrow> None
      | c # cs \<Rightarrow> if c = CHR 0x0A then None else Some (drop (runeWidth t) t))"

primrec skipDots :: "nat \<Rightarrow> string \<Rightarrow> string option" where
  "skipDots 0 t = Some t"
| "skipDots (Suc k) t = (case dotStep t of None \<Rightarrow> None | Some r \<Rightarrow> skipDots k r)"

definition matchAt :: "string \<Rightarrow> string \<Rightarrow> string \<Rightarrow> bool" where
  "matchAt a b t =
     (prefix a t \<and>
      (\<exists>k\<in>set [0..<5].
          case skipDots k (drop (length a) t) of
            Some r \<Rightarrow> prefix b r
          | None \<Rightarrow> False))"

primrec regexp_MatchString :: "string \<Rightarrow> string \<Rightarrow> string \<Rightarrow> bool" where
  "regexp_MatchString a b [] = matchAt a b []"
| "regexp_MatchString a b (c # cs) = (matchAt a b (c # cs) \<or> regexp_MatchString a b cs)"

definition guessFileName :: "Show \<Rightarrow> error + string" where
  "guessFileName s =
     (if length (q_StatusMessages (QueueElement s)) = 1
      then Inr (Title (q_StatusMessages (QueueElement s) ! 0))
      else
        (let episode = q_Episode (QueueElement s) in
         case find (\<lambda>message.
                      regexp_MatchString (Sprintf_d (SeasonNumber episode))
                        (Sprintf_d (EpisodeNumber episode)) (Title message))
                (q_StatusMessages (QueueElement s)) of
           Some message \<Rightarrow> Inr (Title message)
         | None \<Rightarrow> Inl (''imposible to guess file name for '' @ q_Title (QueueElement s))))"

text \<open>
  What the pattern accepts, said without the search: somewhere in the title the season
  number is followed by \<open>k\<close> code points, at most four and none of them a line feed, and
  then by the episode number.  \<open>digitsValue\<close> reads a decimal numeral back.
\<close>

definition matchesPattern :: "int \<Rightarrow> int \<Rightarrow> string \<Rightarrow> bool" where
  "matchesPattern season episode t =
     (\<exists>pre rest k post. t = pre @ Sprintf_d season @ rest \<and> k \<le> 4 \<and>
        skipDots k rest = Some (Sprintf_d episode @ post))"

definition digitsValue :: "string \<Rightarrow> nat" where
  "digitsValue ds = foldl (\<lambda>acc c. 10 * acc + (of_char c - 48)) 0 ds"

section \<open>Guessing the final name\<close>

text \<open>
  The pattern of \<open>guessFinalName\<close> is \<^verbatim>\<open>[.\-_ ]([\-_0-9sSeExX]{2,10})[.\-_ ]\<close>: a separator,
  between two and ten tag characters, a separator.  Hyphen and underscore belong to both
  classes.  \<open>tagAt t k\<close> says that \<open>t\<close> starts with a match whose group has \<open>k\<close>
  characters.  Go's \<open>regexp\<close> returns the leftmost match and, there, the one a
  backtracking matcher finds first: the repetition is greedy, so the longest group that
  still leaves a separator behind it (\<open>matchHere\<close> tries ten characters first).
\<close>

definition isSeparator :: "char \<Rightarrow> bool" where
  "isSeparator c = (c \<in> set ''.-_ '')"

definition isTagChar :: "char \<Rightarrow> bool" where
  "isTagChar c = (c \<in> set ''-_0123456789sSeExX'')"

definition tagAt :: "string \<Rightarrow> nat \<Rightarrow> bool" where
  "tagAt t k =
     (k + 2 \<le> length t \<and> isSeparator (t ! 0) \<and>
      (\<forall>c\<in>set (take k (drop 1 t)). isTagChar c) \<and> isSeparator (t ! (k + 1)))"

definition matchHere :: "string \<Rightarrow> nat option" where
  "matchHere t = find (tagAt t) [10, 9, 8, 7, 6, 5, 4, 3, 2]"

primrec regexFind :: "string \<Rightarrow> string option" where
  "regexFind [] = None"
| "regexFind (c # cs) =
     (case matchHere (c # cs) of
        Some k \<Rightarrow> Some (take (k + 2) (c # cs))
      | None \<Rightarrow> regexFind cs)"

definition tag_MatchString :: "string \<Rightarrow> bool" where
  "tag_MatchString t = (regexFind t \<noteq> None)"

definition tag_FindString :: "string \<Rightarrow> string" where
  "tag_FindString t = (case regexFind t of Some m \<Rightarrow> m | None \<Rightarrow> [])"

text \<open>\<open>strings.Replace(s, old, new, 1)\<close>: the first occurrence of \<open>old\<close> in \<open>s\<close> is replaced.\<close>

primrec strings_Replace1 :: "string \<Rightarrow> string \<Rightarrow> string \<Rightarrow> string" where
  "strings_Replace1 [] old new = (if old = [] then new else [])"
| "strings_Replace1 (c # cs) old new =
     (if prefix old (c # cs) then new @ drop (length old) (c # cs)
      else c # strings_Replace1 cs old new)"

definition canonicalTag :: "Episode \<Rightarrow> string" where
  "canonicalTag episode =
     ''.S'' @ Sprintf_02d (SeasonNumber episode) @ ''E'' @ Sprintf_02d (EpisodeNumber episode) @ ''.''"

definition guessFinalName :: "Show \<Rightarrow> string \<Rightarrow> error + string" where
  "guessFinalName s filename =
     (let finalTitle = h_SourceTitle (HistoryRecord s) in
      if length (q_StatusMessages (QueueElement s)) = 1 then Inr finalTitle
      else
        (let episode = q_Episode (QueueElement s) in
         if \<not> tag_MatchString finalTitle
         then Inl (''unable to guess final episode name of '' @ filename)
         else
           (let match = tag_FindString finalTitle;
                new = canonicalTag episode
            in Inr (strings_Replace1 finalTitle match new))))"

text \<open>
  A tag fragment with its two separators, said without the matcher; \<open>lo\<close> and \<open>hi\<close> bound
  the number of characters between the separators.
\<close>

definition isTagFragment :: "nat \<Rightarrow> nat \<Rightarrow> string \<Rightarrow> bool" where
  "isTagFragment lo hi m =
     (\<exists>a frag b. m = a # frag @ [b] \<and> isSeparator a \<and> isSeparator b \<and>
        lo \<le> length frag \<and> length frag \<le> hi \<and> (\<forall>c\<in>set frag. isTagChar c))"

definition containsTagFragment :: "nat \<Rightarrow> nat \<Rightarrow> string \<Rightarrow> bool" where
  "containsTagFragment lo hi t = (\<exists>pre m post. t = pre @ m @ post \<and> isTagFragment lo hi m)"

text \<open>
  \<open>firstLongest t pre m post\<close>: \<open>m\<close> is the first fragment of two to ten tag characters
  in \<open>t\<close>, after \<open>pre\<close> and before \<open>post\<close>: no fragment starts earlier, and none that
  starts at the same place is longer.
\<close>

definition firstLongest :: "string \<Rightarrow> string \<Rightarrow> string \<Rightarrow> string \<Rightarrow> bool" where
  "firstLongest t pre m post =
     (t = pre @ m @ post \<and> isTagFragment 2 10 m \<and>
      (\<forall>pre' m' post'. t = pre' @ m' @ post' \<and> isTagFragment 2 10 m' \<longrightarrow>
          length pre \<le> length pre') \<and>
      (\<forall>m' post'. t = pre @ m' @ post' \<and> isTagFragment 2 10 m' \<longrightarrow> length m' \<le> length m))"


section \<open>Finding the file in the download folder\<close>

text \<open>
  A call either returns or ends the program with a panic.
\<close>

datatype 'a outcome = Panic | Returns 'a

text \<open>\<open>strings.Join\<close>: the elements with the separator between them.\<close>

primrec strings_Join :: "string list \<Rightarrow> string \<Rightarrow> string" where
  "strings_Join [] sep = []"
| "strings_Join (x # xs) sep = (if xs = [] then x else x @ sep @ strings_Join xs sep)"

text \<open>
  \<open>filepath.Clean\<close> and \<open>path.Clean\<close> on a system whose separator is the slash: the path
  is cut into its elements at the slashes; empty elements and \<open>.\<close> are dropped; \<open>..\<close>
  removes the element before it when there is one that is not \<open>..\<close>, is dropped at the
  start of a rooted path and kept otherwise; the elements left are joined with single
  slashes, after one slash for a rooted path; an empty result is \<open>.\<close>.
  \<open>Join\<close> is \<open>filepath.Join\<close> and \<open>path.Join\<close> of two elements: empty elements are
  ignored, the rest joined with a slash and cleaned.
\<close>

primrec elementsFrom :: "string \<Rightarrow> string \<Rightarrow> string list" where
  "elementsFrom [] cur = (if cur = [] then [] else [cur])"
| "elementsFrom (c # cs) cur =
     (if c = CHR ''/''
      then (if cur = [] then elementsFrom cs [] else cur # elementsFrom cs [])
      else elementsFrom cs (cur @ [c]))"

definition cleanStep :: "bool \<Rightarrow> string list \<Rightarrow> string \<Rightarrow> string list" where
  "cleanStep rooted out e =
     (if e = ''..''
      then (if out \<noteq> [] \<and> last out \<noteq> ''..'' then butlast out
            else if rooted then out else out @ [e])
      else out @ [e])"

definition Clean :: "string \<Rightarrow> string" where
  "Clean path =
     (if path = [] then ''.''
      else
        (let rooted = (hd path = CHR ''/'');
             out = foldl (cleanStep rooted) [] (filter (\<lambda>e. e \<noteq> ''.'') (elementsFrom path []));
             cleaned = (if rooted then ''/'' else []) @ strings_Join out ''/''
         in if cleaned = [] then ''.'' else cleaned))"

definition Join :: "string \<Rightarrow> string \<Rightarrow> string" where
  "Join dir name =
     (if dir = [] \<and> name = [] then []
      else if dir = [] then Clean name
      else Clean (dir @ ''/'' @ name))"

text \<open>
  What \<open>filepath.Walk\<close> finds on disk is a tree.  A file or a directory has the name that
  \<open>info.Name()\<close> returns, and a directory lists its entries in the order in which
  \<open>filepath.Walk\<close> visits them (the lexical order of the names); a directory that cannot
  be read has no entries.  \<open>NoStat\<close> is an entry for which \<open>os.Lstat\<close> fails: a name in a
  directory that cannot be searched, or, as the root, a root that does not exist.
\<close>

datatype fsnode = File string | Dir string "fsnode list" | NoStat string

primrec nodeName :: "fsnode \<Rightarrow> string" where
  "nodeName (File name) = name"
| "nodeName (Dir name entries) = name"
| "nodeName (NoStat name) = name"

text \<open>
  \<open>filepath.Walk\<close> calls the function for the entry itself, with \<open>info == nil\<close> when
  \<open>os.Lstat\<close> failed, then, for a directory, walks the entries one after the other; the
  first error the function returns ends the walk and is the result.  The callback gets
  the name of \<open>info\<close>, or \<open>None\<close> for a nil \<open>info\<close>, and may panic.  The function of
  \<open>locationOfFile\<close> is a closure over the variable \<open>location\<close>, so the callback takes and
  returns the state it closes over.  It never returns \<open>filepath.SkipDir\<close>, and that part
  of \<open>Walk\<close> is left out.  \<open>os.Lstat\<close> of the empty path fails.
\<close>

type_synonym 's WalkFunc = "string \<Rightarrow> string option \<Rightarrow> 's \<Rightarrow> (error option \<times> 's) outcome"

fun walk :: "'s WalkFunc \<Rightarrow> string \<Rightarrow> fsnode \<Rightarrow> 's \<Rightarrow> (error option \<times> 's) outcome"
  and walkEntries :: "'s WalkFunc \<Rightarrow> string \<Rightarrow> fsnode list \<Rightarrow> 's \<Rightarrow> (error option \<times> 's) outcome"
where
  "walk walkFn path (File name) st = walkFn path (Some name) st"
| "walk walkFn path (NoStat name) st = walkFn path None st"
| "walk walkFn path (Dir name entries) st =
     (case walkFn path (Some name) st of
        Panic \<Rightarrow> Panic
      | Returns (Some err1, st') \<Rightarrow> Returns (Some err1, st')
      | Returns (None, st') \<Rightarrow> walkEntries walkFn path entries st')"
| "walkEntries walkFn path [] st = Returns (None, st)"
| "walkEntries walkFn path (e # es) st =
     (case walk walkFn (Join path (nodeName e)) e st of
        Panic \<Rightarrow> Panic
      | Returns (Some err, st') \<Rightarrow> Returns (Some err, st')
      | Returns (None, st') \<Rightarrow> walkEntries walkFn path es st')"

definition Walk :: "fsnode \<Rightarrow> string \<Rightarrow> 's WalkFunc \<Rightarrow> 's \<Rightarrow> (error option \<times> 's) outcome" where
  "Walk tree root walkFn st = walk walkFn root (if root = [] then NoStat [] else tree) st"

text \<open>
  The callback of \<open>locationOfFile\<close> calls \<open>info.Name()\<close> whatever \<open>err\<close> is: on a nil
  \<open>info\<close> this is a nil dereference.
\<close>

definition locationOfFile :: "fsnode \<Rightarrow> string \<Rightarrow> string \<Rightarrow> (string \<times> error option) outcome" where
  "locationOfFile tree root filename =
     (case Walk tree root
             (\<lambda>path info location.
                case info of
                  None \<Rightarrow> Panic
                | Some name \<Rightarrow>
                    Returns (if name = filename then (Some ''ok'', path) else (None, location)))
             [] of
        Panic \<Rightarrow> Panic
      | Returns (err, location) \<Rightarrow>
          (let err1 = (if err \<noteq> None \<and> err = Some ''ok'' then None else err);
               err2 = (if location = []
                       then Some (filename @ '' doesn't exists inside '' @ root) else err1)
           in Returns (location, err2)))"

text \<open>
  The entries in the order of the walk, each with its path and the name of its \<open>info\<close>.
\<close>

fun walkOrder :: "string \<Rightarrow> fsnode \<Rightarrow> (string \<times> string option) list"
  and walkOrderEntries :: "string \<Rightarrow> fsnode list \<Rightarrow> (string \<times> string option) list"
where
  "walkOrder path (File name) = [(path, Some name)]"
| "walkOrder path (NoStat name) = [(path, None)]"
| "walkOrder path (Dir name entries) = (path, Some name) # walkOrderEntries path entries"
| "walkOrderEntries path [] = []"
| "walkOrderEntries path (e # es) =
     walkOrder (Join path (nodeName e)) e @ walkOrderEntries path es"

text \<open>An entry at which the walk of \<open>locationOfFile\<close> stops: it has the file name or no \<open>info\<close>.\<close>

definition stopsAt :: "string \<Rightarrow> string \<times> string option \<Rightarrow> bool" where
  "stopsAt filename = (\<lambda>(path, info). info = None \<or> info = Some filename)"

section \<open>Moving the file\<close>

text \<open>
  The files on disk are a map from a path to the bytes of the file.  What the operating
  system may refuse is a parameter of the move: an error of \<open>os.Open\<close>, of \<open>os.Create\<close>,
  of \<open>io.Copy\<close> after it has written a number of bytes, and of \<open>os.Remove\<close>.
  \<open>os.Create\<close> makes the destination an empty file, truncating one that exists; the
  source is read after that.
\<close>

type_synonym files = "string \<rightharpoonup> string"

record faults =
  openFails :: "error option"
  createFails :: "error option"
  copyFails :: "(nat \<times> error) option"
  removeFails :: "error option"

definition os_Open :: "faults \<Rightarrow> files \<Rightarrow> string \<Rightarrow> error option" where
  "os_Open flt fs name =
     (case openFails flt of
        Some err \<Rightarrow> Some err
      | None \<Rightarrow>
          (case fs name of
             None \<Rightarrow> Some (''open '' @ name @ '': no such file or directory'')
           | Some content \<Rightarrow> None))"

definition moveFromTo :: "faults \<Rightarrow> files \<Rightarrow> string \<Rightarrow> string \<Rightarrow> error option \<times> files" where
  "moveFromTo flt fs sourcePath destPath =
     (case os_Open flt fs sourcePath of
        Some err \<Rightarrow> (Some (''couldn't open source file: '' @ err), fs)
      | None \<Rightarrow>
          (case createFails flt of
             Some err \<Rightarrow> (Some (''couldn't open dest file: '' @ err), fs)
           | None \<Rightarrow>
               (let created = fs(destPath \<mapsto> []);
                    content = (case created sourcePath of Some bytes \<Rightarrow> bytes | None \<Rightarrow> [])
                in case copyFails flt of
                     Some (written, err) \<Rightarrow>
                       (Some (''writing to output file failed: '' @ err),
                        created(destPath \<mapsto> take written content))
                   | None \<Rightarrow>
                       (let copied = created(destPath \<mapsto> content) in
                        case removeFails flt of
                          Some err \<Rightarrow> (Some (''Failed removing original file: '' @ err), copied)
                        | None \<Rightarrow> (None, copied(sourcePath := None))))))"

definition noFaults :: faults where
  "noFaults = \<lparr>openFails = None, createFails = None, copyFails = None, removeFails = None\<rparr>"

section \<open>Renaming the matched shows\<close>

text \<open>\<open>filepath.Ext\<close>: the suffix that starts at the last dot of the last element of the path.\<close>

definition Ext :: "string \<Rightarrow> string" where
  "Ext path =
     (let suffix = takeWhile (\<lambda>c. c \<noteq> CHR ''.'' \<and> c \<noteq> CHR ''/'') (rev path) in
      case drop (length suffix) (rev path) of
        [] \<Rightarrow> []
      | c # cs \<Rightarrow> if c = CHR ''.'' then c # rev suffix else [])"

text \<open>
  The surroundings of \<open>FixNaming\<close>: the value of the environment variable of the download
  folder, the tree that \<open>filepath.Walk\<close> finds there for the files on disk, and the
  failures of the operating system for a move.
\<close>

record env =
  DownloadFolder :: string
  listing :: "files \<Rightarrow> fsnode"
  faultsOf :: "string \<Rightarrow> string \<Rightarrow> faults"

text \<open>
  \<open>FixNaming\<close> has a value receiver: \<open>s\<close> is a copy of the caller's \<open>Show\<close>.  The model
  returns the error, the receiver as it is when the method returns, and the files; a
  panic of \<open>locationOfFile\<close> ends the program.
\<close>

definition FixNaming :: "env \<Rightarrow> files \<Rightarrow> Show \<Rightarrow> (error option \<times> Show \<times> files) outcome" where
  "FixNaming ev fs s =
     (case guessFileName s of
        Inl err \<Rightarrow> Returns (Some err, s, fs)
      | Inr filename \<Rightarrow>
          (case locationOfFile (listing ev fs) (DownloadFolder ev) filename of
             Panic \<Rightarrow> Panic
           | Returns (oldPath, Some err) \<Rightarrow> Returns (Some err, s, fs)
           | Returns (oldPath, None) \<Rightarrow>
               (case guessFinalName s filename of
                  Inl err \<Rightarrow> Returns (Some err, s, fs)
                | Inr finalName \<Rightarrow>
                    (let newPath = Join (q_SeriesPath (QueueElement s)) (finalName @ Ext oldPath) in
                     case moveFromTo (faultsOf ev oldPath newPath) fs oldPath newPath of
                       (Some err, fs') \<Rightarrow> Returns (Some err, s, fs')
                     | (None, fs') \<Rightarrow> Returns (None, s\<lparr>HasBeenRenamed := True\<rparr>, fs')))))"

text \<open>
  \<open>for _, s := range shows\<close> copies each element into \<open>s\<close>; what \<open>FixNaming\<close> does to
  its receiver is dropped, only the files go on to the next round.
\<close>

primrec fixLoop :: "env \<Rightarrow> files \<Rightarrow> Show list \<Rightarrow> files outcome" where
  "fixLoop ev fs [] = Returns fs"
| "fixLoop ev fs (s # rest) =
     (case FixNaming ev fs s of
        Panic \<Rightarrow> Panic
      | Returns (err, s', fs') \<Rightarrow> fixLoop ev fs' rest)"

definition FixFailedShows ::
  "env \<Rightarrow> (error + QueueElement list) \<Rightarrow> transport \<Rightarrow> files \<Rightarrow>
   ((error + Show list) \<times> files) outcome option"
where
  "FixFailedShows ev GetQueue fetch fs =
     (case loadFailedShows GetQueue fetch of
        None \<Rightarrow> None
      | Some (Inl err) \<Rightarrow> Some (Returns (Inl err, fs))
      | Some (Inr shows) \<Rightarrow>
          (case fixLoop ev fs shows of
             Panic \<Rightarrow> Some Panic
           | Returns fs' \<Rightarrow> Some (Returns (Inr shows, fs'))))"

section \<open>Executing a command and waiting for it\<close>

record CommandStatus =
  cs_ID :: int
  cs_State :: string
  cs_Name :: string

record CommandBody =
  cb_Name :: string
  cb_Path :: string
  cb_SeriesIds :: "int list"
  cb_MovieIds :: "int list"

text \<open>
  Modelled from the spec: the constant \<open>CommandStateCompleted\<close> is declared in a file of
  package \<open>api\<close> that is not among the sources; the specification names the state
  "completed".
\<close>

definition CommandStateCompleted :: string where
  "CommandStateCompleted = ''completed''"

text \<open>Durations are counted in nanoseconds, as \<open>time.Duration\<close> does.\<close>

definition MaxTime :: int where
  "MaxTime = 1000000000 * 30"

definition CheckInterval :: int where
  "CheckInterval = 1000000000 * 5"

definition DefaultRetries :: int where
  "DefaultRetries = 3"

text \<open>
  The server is a parameter.  \<open>ExecuteCommand\<close> and \<open>GetCommandStatus\<close> return their pair
  \<open>(cs, err)\<close>; the answer may depend on how many submissions, or polls, came before, which
  is the first argument.  The model counts the submissions and the polls, and
  \<open>time.Sleep\<close> only passes time.
\<close>

record remote =
  ExecuteCommand :: "nat \<Rightarrow> CommandBody \<Rightarrow> CommandStatus \<times> error option"
  GetCommandStatus :: "nat \<Rightarrow> int \<Rightarrow> CommandStatus \<times> error option"

text \<open>
  The inner loop \<open>for totalWait <= MaxTime\<close>.  Each poll overwrites \<open>cs\<close>, so the next
  poll asks for the identifier of the status that the last poll returned.  The result
  says whether the function returned from inside the loop, with \<open>cs\<close> and the number of
  polls made so far.
\<close>

function pollLoop ::
  "(nat \<Rightarrow> int \<Rightarrow> CommandStatus \<times> error option) \<Rightarrow> CommandStatus \<Rightarrow> nat \<Rightarrow> int \<Rightarrow>
   bool \<times> CommandStatus \<times> nat"
where
  "pollLoop status cs polls totalWait =
     (if totalWait \<le> MaxTime then
        (case status polls (cs_ID cs) of
           (cs', err) \<Rightarrow>
             if err = None \<and> cs_State cs' = CommandStateCompleted then (True, cs', polls + 1)
             else pollLoop status cs' (polls + 1) (totalWait + CheckInterval))
      else (False, cs, polls))"
  by pat_completeness auto
termination
  by (relation "measure (\<lambda>(status, cs, polls, totalWait). nat (MaxTime + 1 - totalWait))")
     (auto simp: MaxTime_def CheckInterval_def)

declare pollLoop.simps [simp del]

text \<open>
  The outer loop \<open>for i := 0; i < retries; i++\<close>.  The result is the pair \<open>(cs, err)\<close> that
  the function returns, with the number of submissions and of polls made.
\<close>

function attemptLoop ::
  "remote \<Rightarrow> CommandBody \<Rightarrow> int \<Rightarrow> int \<Rightarrow> CommandStatus \<Rightarrow> nat \<Rightarrow> nat \<Rightarrow>
   CommandStatus \<times> error option \<times> nat \<times> nat"
where
  "attemptLoop a c retries i cs submits polls =
     (if i < retries then
        (case ExecuteCommand a submits c of
           (cs', Some err) \<Rightarrow> attemptLoop a c retries (i + 1) cs' (submits + 1) polls
         | (cs', None) \<Rightarrow>
             (case pollLoop (GetCommandStatus a) cs' polls CheckInterval of
                (True, cs'', polls') \<Rightarrow> (cs'', None, submits + 1, polls')
              | (False, cs'', polls') \<Rightarrow>
                  attemptLoop a c retries (i + 1) cs'' (submits + 1) polls'))
      else (cs, Some (''timeout checking command '' @ cb_Name c @ '', not completed''),
            submits, polls))"
  by pat_completeness auto
termination
  by (relation "measure (\<lambda>(a, c, retries, i, cs, submits, polls). nat (retries - i))") auto

declare attemptLoop.simps [simp del]

definition ExecuteCommandAndWait ::
  "remote \<Rightarrow> CommandBody \<Rightarrow> int \<Rightarrow> CommandStatus \<times> error option \<times> nat \<times> nat" where
  "ExecuteCommandAndWait a c retries =
     attemptLoop a c retries 0 \<lparr>cs_ID = 0, cs_State = [], cs_Name = []\<rparr> 0 0"

text \<open>
  The answers of the status source to the polls of an attempt that starts with the status
  \<open>cs0\<close> of the submission, when \<open>before\<close> polls were made earlier: answer \<open>k\<close> is the one
  to poll \<open>k + 1\<close> of the attempt.  \<open>completedOk\<close> is the test under which the function
  returns.
\<close>

primrec pollAnswer ::
  "(nat \<Rightarrow> int \<Rightarrow> CommandStatus \<times> error option) \<Rightarrow> CommandStatus \<Rightarrow> nat \<Rightarrow> nat \<Rightarrow>
   CommandStatus \<times> error option"
where
  "pollAnswer status cs0 before 0 = status before (cs_ID cs0)"
| "pollAnswer status cs0 before (Suc k) =
     status (before + Suc k) (cs_ID (fst (pollAnswer status cs0 before k)))"

definition completedOk :: "CommandStatus \<times> error option \<Rightarrow> bool" where
  "completedOk answer = (snd answer = None \<and> cs_State (fst answer) = CommandStateCompleted)"

definition timeoutError :: "CommandBody \<Rightarrow> error" where
  "timeoutError c = ''timeout checking command '' @ cb_Name c @ '', not completed''"

section \<open>Cleaning the queue\<close>

text \<open>
  \<open>api.Media\<close> is declared in a file that is not among the sources.  \<open>CleanFixedShows\<close>
  reads its fields \<open>HasBeenRenamed\<close> and \<open>QueueElement\<close>, the fields of \<open>Show\<close>, which
  stands for it here.  The parameters are the error of the call of
  \<open>ExecuteCommandAndWait\<close> for the rescan, the answer of \<open>HasBeenDetected\<close> for an item, and
  the error of \<open>DeleteQueueItem\<close> for an identifier, which may depend on the number of
  deletions made before.  The state of the loop is the slice \<open>errors\<close> and the
  identifiers that \<open>DeleteQueueItem\<close> was called with so far.
\<close>

type_synonym Media = Show

primrec cleanLoop ::
  "(Media \<Rightarrow> bool) \<Rightarrow> (nat \<Rightarrow> int \<Rightarrow> error option) \<Rightarrow> Media list \<Rightarrow>
   string list \<times> int list \<Rightarrow> string list \<times> int list"
where
  "cleanLoop HasBeenDetected DeleteQueueItem [] st = st"
| "cleanLoop HasBeenDetected DeleteQueueItem (s # rest) st =
     cleanLoop HasBeenDetected DeleteQueueItem rest
       (if HasBeenRenamed s \<and> HasBeenDetected s then
          (case DeleteQueueItem (length (snd st)) (q_ID (QueueElement s)) of
             Some err \<Rightarrow> (fst st @ [err], snd st @ [q_ID (QueueElement s)])
           | None \<Rightarrow> (fst st, snd st @ [q_ID (QueueElement s)]))
        else st)"

definition CleanFixedShows ::
  "error option \<Rightarrow> (Media \<Rightarrow> bool) \<Rightarrow> (nat \<Rightarrow> int \<Rightarrow> error option) \<Rightarrow> Media list \<Rightarrow>
   error option \<times> int list" where
  "CleanFixedShows rescan HasBeenDetected DeleteQueueItem mediaFiles =
     (case rescan of
        Some err \<Rightarrow> (Some err, [])
      | None \<Rightarrow>
          (case cleanLoop HasBeenDetected DeleteQueueItem mediaFiles ([], []) of
             (errors, deleted) \<Rightarrow>
               if length errors > 0 then (Some (strings_Join errors '', ''), deleted)
               else (None, deleted)))"

text \<open>
  The items the loop deletes, the identifiers it calls \<open>DeleteQueueItem\<close> with, and the
  messages of the calls that fail, said without the loop; call \<open>k\<close> is the one made after
  \<open>k\<close> earlier calls.
\<close>

definition toDelete :: "(Media \<Rightarrow> bool) \<Rightarrow> Media list \<Rightarrow> int list" where
  "toDelete HasBeenDetected mediaFiles =
     map (\<lambda>s. q_ID (QueueElement s))
       (filter (\<lambda>s. HasBeenRenamed s \<and> HasBeenDetected s) mediaFiles)"

definition failuresFrom :: "(nat \<Rightarrow> int \<Rightarrow> error option) \<Rightarrow> nat \<Rightarrow> int list \<Rightarrow> string list" where
  "failuresFrom DeleteQueueItem k ids =
     concat (map (\<lambda>(n, x). case DeleteQueueItem n x of Some err \<Rightarrow> [err] | None \<Rightarrow> [])
               (zip [k..<k + length ids] ids))"

section \<open>Example data\<close>

text \<open>
  Queue entries, history records and history sources on which the properties below are
  evaluated.  \<open>ex_q1\<close> and \<open>ex_q2\<close> are completed entries flagged with a warning,
  \<open>ex_q3\<close> is completed but not flagged; \<open>ex_q4\<close> and \<open>ex_q5\<close> carry two status messages.
\<close>

definition ex_q1 :: QueueElement where
  "ex_q1 = \<lparr>q_ID = 1, q_Title = ''Alpha'', q_Status = ''Completed'',
            q_TrackedDownloadStatus = ''Warning'', q_DownloadID = ''A'',
            q_Episode = \<lparr>SeasonNumber = 1, EpisodeNumber = 1\<rparr>, q_SeriesPath = ''/tv/alpha'',
            q_StatusMessages = [\<lparr>Title = ''Alpha.S01E01.mkv''\<rparr>]\<rparr>"

definition ex_q2 :: QueueElement where
  "ex_q2 = \<lparr>q_ID = 2, q_Title = ''Beta'', q_Status = ''Completed'',
            q_TrackedDownloadStatus = ''Warning'', q_DownloadID = ''B'',
            q_Episode = \<lparr>SeasonNumber = 1, EpisodeNumber = 2\<rparr>, q_SeriesPath = ''/tv/beta'',
            q_StatusMessages = [\<lparr>Title = ''Beta.S01E02.mkv''\<rparr>]\<rparr>"

definition ex_q3 :: QueueElement where
  "ex_q3 = \<lparr>q_ID = 3, q_Title = ''Gamma'', q_Status = ''Completed'',
            q_TrackedDownloadStatus = ''Ok'', q_DownloadID = ''B'',
            q_Episode = \<lparr>SeasonNumber = 1, EpisodeNumber = 2\<rparr>, q_SeriesPath = ''/tv/gamma'',
            q_StatusMessages = [\<lparr>Title = ''Gamma.S01E02.mkv''\<rparr>]\<rparr>"

definition ex_q4 :: QueueElement where
  "ex_q4 = ex_q2\<lparr>q_StatusMessages :=
             [\<lparr>Title = ''Sample.mkv''\<rparr>, \<lparr>Title = ''Beta.1x02.mkv''\<rparr>]\<rparr>"

definition ex_q5 :: QueueElement where
  "ex_q5 = ex_q2\<lparr>q_StatusMessages :=
             [\<lparr>Title = ''Sample.mkv''\<rparr>, \<lparr>Title = ''Readme.txt''\<rparr>]\<rparr>"

definition ex_hB :: HistoryRecord where
  "ex_hB = \<lparr>h_DownloadID = ''B'', h_Episode = \<lparr>SeasonNumber = 1, EpisodeNumber = 2\<rparr>,
            h_TrackedDownloadStatus = ''Ok'', h_SourceTitle = ''Beta.S01E02.720p''\<rparr>"

definition ex_hB' :: HistoryRecord where
  "ex_hB' = \<lparr>h_DownloadID = ''B'', h_Episode = \<lparr>SeasonNumber = 1, EpisodeNumber = 2\<rparr>,
             h_TrackedDownloadStatus = ''Warning'', h_SourceTitle = ''Beta.S01E02.720p''\<rparr>"

definition ex_hBx :: HistoryRecord where
  "ex_hBx = \<lparr>h_DownloadID = ''B'', h_Episode = \<lparr>SeasonNumber = 1, EpisodeNumber = 2\<rparr>,
             h_TrackedDownloadStatus = ''Ok'', h_SourceTitle = ''Beta.1x02.720p''\<rparr>"

definition ex_h5 :: HistoryRecord where
  "ex_h5 = \<lparr>h_DownloadID = ''B'', h_Episode = \<lparr>SeasonNumber = 1, EpisodeNumber = 2\<rparr>,
            h_TrackedDownloadStatus = ''Ok'', h_SourceTitle = ''Show.5.720p''\<rparr>"

definition ex_fetch :: transport where
  "ex_fetch page =
     (if page = 1 then Inr (\<lparr>Page = 1, PageSize = 10, Records = [ex_hB]\<rparr>, None)
      else Inr (\<lparr>Page = page, PageSize = 0, Records = []\<rparr>, None))"

definition ex_page2 :: History where
  "ex_page2 = \<lparr>Page = 1, PageSize = 10, Records = [ex_hB, ex_hB']\<rparr>"

definition ex_fetch2 :: transport where
  "ex_fetch2 page =
     (if page = 1 then Inr (ex_page2, None)
      else Inr (\<lparr>Page = page, PageSize = 0, Records = []\<rparr>, None))"

text \<open>
  A download folder in which a directory has the name of the file inside it; files on
  disk, a copy that fails after one byte, and surroundings in which every move works.
\<close>

definition ex_tree :: fsnode where
  "ex_tree = Dir ''downloads''
     [Dir ''Beta.S01E02.mkv'' [File ''Beta.S01E02.mkv'', File ''info.nfo''],
      File ''Sample.mkv'']"

definition ex_copyFault :: faults where
  "ex_copyFault = noFaults\<lparr>copyFails := Some (1, ''no space left on device'')\<rparr>"

definition ex_files :: files where
  "ex_files = [''/downloads/Beta.S01E02.mkv'' \<mapsto> ''abc'']"

definition ex_env :: env where
  "ex_env = \<lparr>DownloadFolder = ''/downloads'',
             listing = (\<lambda>fs. Dir ''downloads''
                [File name. name \<leftarrow> [''Beta.S01E02.mkv'', ''Sample.mkv''],
                            fs (Join ''/downloads'' name) \<noteq> None]),
             faultsOf = (\<lambda>src dst. noFaults)\<rparr>"

definition ex_show :: Show where
  "ex_show = mkShow ex_q2 ex_hB"

text \<open>
  A server on which the first poll fails and the third reports the command completed, and
  one on which the command never completes; three renamed items, the deletion of the
  second of which fails.
\<close>

definition ex_cmd :: CommandBody where
  "ex_cmd = \<lparr>cb_Name = ''RescanSeries'', cb_Path = [], cb_SeriesIds = [], cb_MovieIds = []\<rparr>"

definition ex_status :: "string \<Rightarrow> CommandStatus" where
  "ex_status state = \<lparr>cs_ID = 42, cs_State = state, cs_Name = ''RescanSeries''\<rparr>"

definition ex_remote :: remote where
  "ex_remote = \<lparr>ExecuteCommand = (\<lambda>n c. (ex_status ''queued'', None)),
                 GetCommandStatus = (\<lambda>k id.
                    if k = 0 then (\<lparr>cs_ID = 0, cs_State = [], cs_Name = []\<rparr>, Some ''EOF'')
                    else if k = 2 then (ex_status ''completed'', None)
                    else (ex_status ''started'', None))\<rparr>"

definition ex_remote_never :: remote where
  "ex_remote_never = \<lparr>ExecuteCommand = (\<lambda>n c. (ex_status ''queued'', None)),
                 GetCommandStatus = (\<lambda>k id. (ex_status ''started'', None))\<rparr>"

definition ex_media :: "int \<Rightarrow> Media" where
  "ex_media n = \<lparr>HistoryRecord = ex_hB, QueueElement = ex_q2\<lparr>q_ID := n\<rparr>, HasBeenRenamed = True\<rparr>"

definition ex_delete :: "nat \<Rightarrow> int \<Rightarrow> error option" where
  "ex_delete k n =
     (if n = 2 then Some ''error deleting item from queue, status code 500''
      else if n = 4 then Some ''error deleting item from queue, status code 404''
      else None)"

text \<open>
  Queue entries of season 12, episode 3, with two status messages: a title with a line
  feed between the numbers, titles with four code points of two bytes each and with five
  characters between them; a server on which the first poll fails and the second reports
  the command completed.
\<close>

definition ex_q12 :: "string list \<Rightarrow> QueueElement" where
  "ex_q12 titles = \<lparr>q_ID = 12, q_Title = ''Delta'', q_Status = ''Completed'',
            q_TrackedDownloadStatus = ''Warning'', q_DownloadID = ''D'',
            q_Episode = \<lparr>SeasonNumber = 12, EpisodeNumber = 3\<rparr>, q_SeriesPath = ''/tv/delta'',
            q_StatusMessages = map (\<lambda>t. \<lparr>Title = t\<rparr>) titles\<rparr>"

definition ex_title_linefeed :: string where
  "ex_title_linefeed = ''12'' @ [CHR 0x0A] @ ''3''"

definition ex_title_accents :: string where
  "ex_title_accents =
     ''Delta.12'' @ [CHR 0xC3, CHR 0xA9, CHR 0xC3, CHR 0xA9, CHR 0xC3, CHR 0xA9, CHR 0xC3, CHR 0xA9]
       @ ''3.mkv''"

definition ex_title_five :: string where
  "ex_title_five = ''Delta.12.abc.3.mkv''"

definition ex_remote_retry :: remote where
  "ex_remote_retry = \<lparr>ExecuteCommand = (\<lambda>n c. (ex_status ''queued'', None)),
                 GetCommandStatus = (\<lambda>k id.
                    if k = 0 then (\<lparr>cs_ID = 0, cs_State = [], cs_Name = []\<rparr>, Some ''EOF'')
                    else (ex_status ''completed'', None))\<rparr>"

section \<open>Properties of the matcher\<close>

lemma scanHistory_filter:
  "scanHistory q hs st =
     (fst st \<or> (\<exists>he\<in>set hs. sameShow q he),
      snd st @ map (mkShow q) (filter (sameShow q) hs))"
  by (induction hs arbitrary: st) (auto simp: mkShow_def)

lemma loadLoop_skip_step:
  assumes "i < length queue" and "\<not> isCandidate (queue ! i)"
  shows "loadLoop fetch queue i history shows = loadLoop fetch queue (i + 1) history shows"
  using assms by (subst loadLoop.simps) (auto simp add: isCandidate_def)

lemma loadLoop_found_step:
  assumes "i < length queue" and "isCandidate (queue ! i)"
    and "\<exists>he\<in>set (Records history). sameShow (queue ! i) he"
  shows "loadLoop fetch queue i history shows =
         loadLoop fetch queue (i + 1) history
           (shows @ map (mkShow (queue ! i)) (filter (sameShow (queue ! i)) (Records history)))"
  using assms
  by (subst loadLoop.simps) (simp add: isCandidate_def scanHistory_filter)

lemma loadLoop_page_step:
  assumes "i < length queue" and "isCandidate (queue ! i)"
    and "\<forall>he\<in>set (Records history). \<not> sameShow (queue ! i) he"
  shows "loadLoop fetch queue i history shows =
         (case addPageToHistory fetch history of
            Inl err \<Rightarrow> Some (Inl err)
          | Inr history' \<Rightarrow> loadLoop fetch queue i history' shows)"
  using assms
  by (subst loadLoop.simps) (simp add: isCandidate_def scanHistory_filter)

lemma loadLoop_done:
  assumes "\<not> i < length queue"
  shows "loadLoop fetch queue i history shows = Some (Inr shows)"
  using assms by (subst loadLoop.simps) simp

lemma loadLoop_emits:
  assumes "loadLoop fetch queue i history shows = Some r"
  shows "\<forall>out. r = Inr out \<longrightarrow> (\<forall>s\<in>set out. s \<in> set shows \<or> emitted queue s)"
  using assms
proof (induct rule: loadLoop.raw_induct[rotated 1, consumes 1, case_names step])
  case (step loadLoop fetch queue i history shws r)
  show ?case
  proof (cases "i < length queue")
    case False
    with step(2) show ?thesis by auto
  next
    case inb: True
    show ?thesis
    proof (cases "isCandidate (queue ! i)")
      case False
      with step(2) inb have "loadLoop fetch queue (i + 1) history shws = Some r"
        by (simp add: isCandidate_def Let_def split: if_splits)
      from step(1)[OF this] show ?thesis .
    next
      case cand: True
      let ?new = "shws @ map (mkShow (queue ! i)) (filter (sameShow (queue ! i)) (Records history))"
      have new: "\<forall>s\<in>set ?new. s \<in> set shws \<or> emitted queue s"
        using cand inb by (auto simp: emitted_def)
      show ?thesis
      proof (cases "\<exists>he\<in>set (Records history). sameShow (queue ! i) he")
        case True
        with step(2) inb cand have "loadLoop fetch queue (i + 1) history ?new = Some r"
          by (simp add: isCandidate_def scanHistory_filter)
        from step(1)[OF this] new show ?thesis by blast
      next
        case nomatch: False
        show ?thesis
        proof (cases "addPageToHistory fetch history")
          case (Inl e)
          with step(2) inb cand nomatch have "r = Inl e"
            by (simp add: isCandidate_def scanHistory_filter)
          then show ?thesis by simp
        next
          case (Inr history')
          with step(2) inb cand nomatch have "loadLoop fetch queue i history' ?new = Some r"
            by (simp add: isCandidate_def scanHistory_filter)
          from step(1)[OF this] new show ?thesis by blast
        qed
      qed
    qed
  qed
qed

lemma loadFailedShows_emits:
  assumes "loadFailedShows GetQueue fetch = Some (Inr shows)" and "s \<in> set shows"
  shows "\<exists>queue. GetQueue = Inr queue \<and> emitted queue s"
proof -
  from assms(1) obtain queue history where q: "GetQueue = Inr queue"
    and l: "loadLoop fetch queue 0 history [] = Some (Inr shows)"
    by (auto simp: loadFailedShows_def split: sum.splits)
  from loadLoop_emits[OF l] assms(2) have "emitted queue s" by auto
  with q show ?thesis by blast
qed

text \<open>
  Claim C6.  A queue entry that is not at once in status "Completed" and in tracked-download
  status "Warning" is never paired with a history record: whenever \<open>loadFailedShows\<close>
  returns a list of shows, no show of the list carries such an entry.
\<close>

theorem matcher_skips_non_candidates:
  assumes "loadFailedShows GetQueue fetch = Some (Inr shows)"
    and "\<not> (q_Status q = StatusCompleted \<and>
             q_TrackedDownloadStatus q = TrackedDownloadStatusWarning)"
  shows "\<forall>s\<in>set shows. QueueElement s \<noteq> q"
proof
  fix s assume "s \<in> set shows"
  from loadFailedShows_emits[OF assms(1) this] obtain queue where "emitted queue s" by blast
  then have "isCandidate (QueueElement s)"
    by (auto simp: emitted_def mkShow_def)
  with assms(2) show "QueueElement s \<noteq> q" by (auto simp: isCandidate_def)
qed

lemma ex_run: "loadFailedShows (Inr [ex_q3, ex_q2]) ex_fetch = Some (Inr [mkShow ex_q2 ex_hB])"
  by (simp add: loadFailedShows_def GetHistory_def ex_fetch_def loadLoop_skip_step
      loadLoop_found_step loadLoop_done isCandidate_def ex_q3_def ex_q2_def ex_hB_def
      StatusCompleted_def TrackedDownloadStatusWarning_def sameShow_def)

lemma ex_q3_not_candidate:
  "\<not> (q_Status ex_q3 = StatusCompleted \<and> q_TrackedDownloadStatus ex_q3 = TrackedDownloadStatusWarning)"
  by (simp add: ex_q3_def TrackedDownloadStatusWarning_def)

theorem matcher_skips_non_candidates_witness:
  "loadFailedShows (Inr [ex_q3, ex_q2]) ex_fetch = Some (Inr [mkShow ex_q2 ex_hB]) \<and>
   sameShow ex_q3 ex_hB \<and>
   \<not> (q_Status ex_q3 = StatusCompleted \<and>
       q_TrackedDownloadStatus ex_q3 = TrackedDownloadStatusWarning) \<and>
   QueueElement (mkShow ex_q2 ex_hB) \<noteq> ex_q3"
  using matcher_skips_non_candidates[OF ex_run ex_q3_not_candidate] ex_run ex_q3_not_candidate
  by (simp add: sameShow_def ex_q3_def ex_hB_def)

text \<open>
  Claim C3 says that a candidate gets exactly one \<open>Show\<close>.  The loop over the history
  records does not stop at the first record of the same show: with two such records in
  memory the entry \<open>ex_q2\<close> gets two.
\<close>

theorem matcher_one_item_counterexample:
  "loadFailedShows (Inr [ex_q2]) ex_fetch2 = Some (Inr [mkShow ex_q2 ex_hB, mkShow ex_q2 ex_hB'])"
  by (simp add: loadFailedShows_def GetHistory_def ex_fetch2_def ex_page2_def
      loadLoop_found_step loadLoop_done isCandidate_def ex_q2_def ex_hB_def ex_hB'_def
      StatusCompleted_def TrackedDownloadStatusWarning_def sameShow_def)

text \<open>
  Claim C3, amended.  For a candidate queue entry, when the scan of the history records in
  memory finds records with the same download identifier, season number and episode
  number, one \<open>Show\<close> is emitted for every such record, in the order of the history, and
  the iteration goes on with the next queue entry.
\<close>

theorem matcher_emits_every_match:
  assumes "i < length queue" and "isCandidate (queue ! i)"
    and "\<exists>he\<in>set (Records history). sameShow (queue ! i) he"
  shows "loadLoop fetch queue i history shows =
         loadLoop fetch queue (i + 1) history
           (shows @ map (mkShow (queue ! i)) (filter (sameShow (queue ! i)) (Records history)))"
  by (rule loadLoop_found_step[OF assms])


theorem matcher_emits_every_match_witness:
  "0 < length [ex_q2] \<and> isCandidate ([ex_q2] ! 0) \<and>
   (\<exists>he\<in>set (Records ex_page2). sameShow ([ex_q2] ! 0) he) \<and>
   loadLoop ex_fetch2 [ex_q2] 0 ex_page2 [] =
     Some (Inr [mkShow ex_q2 ex_hB, mkShow ex_q2 ex_hB'])"
proof -
  have 1: "0 < length [ex_q2]" by simp
  have 2: "isCandidate ([ex_q2] ! 0)"
    by (simp add: isCandidate_def ex_q2_def StatusCompleted_def TrackedDownloadStatusWarning_def)
  have 3: "\<exists>he\<in>set (Records ex_page2). sameShow ([ex_q2] ! 0) he"
    by (simp add: ex_page2_def sameShow_def ex_q2_def ex_hB_def)
  have 4: "filter (sameShow ex_q2) (Records ex_page2) = [ex_hB, ex_hB']"
    by (simp add: ex_page2_def sameShow_def ex_q2_def ex_hB_def ex_hB'_def)
  show ?thesis
    using matcher_emits_every_match[OF 1 2 3, of ex_fetch2 "[]"] 1 2 3 4
    by (simp add: loadLoop_done)
qed

text \<open>
  The whole run, when the first page of the history holds a record for every candidate:
  the shows are, candidate after candidate in the order of the queue, one for every
  matching record.
\<close>

lemma loadLoop_first_page:
  assumes "\<forall>q\<in>set queue. isCandidate q \<longrightarrow> (\<exists>he\<in>set (Records history). sameShow q he)"
  shows "loadLoop fetch queue i history shows =
     Some (Inr (shows @ concat (map (\<lambda>q. map (mkShow q) (filter (sameShow q) (Records history)))
                                  (filter isCandidate (drop i queue)))))"
proof (induction "length queue - i" arbitrary: i "shows")
  case 0
  then show ?case by (simp add: loadLoop_done)
next
  case (Suc n)
  then have inb: "i < length queue" by simp
  have d: "drop i queue = queue ! i # drop (i + 1) queue"
    using inb by (simp add: Cons_nth_drop_Suc)
  have n: "n = length queue - (i + 1)" using Suc.hyps(2) by simp
  show ?case
  proof (cases "isCandidate (queue ! i)")
    case False
    with Suc.hyps(1)[OF n] loadLoop_skip_step[OF inb False] show ?thesis
      by (simp add: d)
  next
    case True
    with assms inb have m: "\<exists>he\<in>set (Records history). sameShow (queue ! i) he" by simp
    from Suc.hyps(1)[OF n] loadLoop_found_step[OF inb True m] True show ?thesis
      by (simp add: d)
  qed
qed

lemma loadFailedShows_first_page:
  assumes "GetQueue = Inr queue" and "GetHistory fetch 1 = Inr history"
    and "\<forall>q\<in>set queue. isCandidate q \<longrightarrow> (\<exists>he\<in>set (Records history). sameShow q he)"
  shows "loadFailedShows GetQueue fetch =
     Some (Inr (concat (map (\<lambda>q. map (mkShow q) (filter (sameShow q) (Records history)))
                          (filter isCandidate queue))))"
  using assms(1,2) loadLoop_first_page[OF assms(3), of fetch 0 "[]"]
  by (simp add: loadFailedShows_def)

lemma loadLoop_exhausted:
  assumes j: "j < length queue" "isCandidate (queue ! j)"
    and pages: "\<forall>p. 1 \<le> p \<and> p \<le> n \<longrightarrow>
          (\<exists>h. fetch p = Inr (h, None) \<and> PageSize h \<noteq> 0 \<and>
               (\<forall>he\<in>set (Records h). \<not> sameShow (queue ! j) he))"
    and last: "fetch (n + 1) = Inr (hz, ez)" "PageSize hz = 0"
  shows "i \<le> j \<Longrightarrow> 0 \<le> Page history \<Longrightarrow> Page history \<le> n \<Longrightarrow>
         \<forall>he\<in>set (Records history). \<not> sameShow (queue ! j) he \<Longrightarrow>
         loadLoop fetch queue i history shows = Some (Inl noMoreItems)"
proof (induction "(j - i) + nat (n - Page history)" arbitrary: i history "shows" rule: less_induct)
  case less
  have inb: "i < length queue" using less.prems(1) j(1) by simp
  show ?case
  proof (cases "isCandidate (queue ! i)")
    case False
    then have ij: "i \<noteq> j" using j(2) by auto
    have "loadLoop fetch queue (i + 1) history shows = Some (Inl noMoreItems)"
      using ij less.prems by (intro less.hyps) auto
    with loadLoop_skip_step[OF inb False] show ?thesis by simp
  next
    case cand: True
    show ?thesis
    proof (cases "\<exists>he\<in>set (Records history). sameShow (queue ! i) he")
      case True
      then have ij: "i \<noteq> j" using less.prems(4) by auto
      have "loadLoop fetch queue (i + 1) history
           (shows @ map (mkShow (queue ! i)) (filter (sameShow (queue ! i)) (Records history)))
            = Some (Inl noMoreItems)"
        using ij less.prems by (intro less.hyps) auto
      then show ?thesis using loadLoop_found_step[OF inb cand True] by simp
    next
      case False
      then have nomatch: "\<forall>he\<in>set (Records history). \<not> sameShow (queue ! i) he" by simp
      note step = loadLoop_page_step[OF inb cand nomatch]
      show ?thesis
      proof (cases "Page history = n")
        case True
        with last have "addPageToHistory fetch history = Inl noMoreItems"
          by (simp add: addPageToHistory_def GetHistory_def noMoreItems_def)
        with step show ?thesis by simp
      next
        case False
        with less.prems have rng: "1 \<le> Page history + 1 \<and> Page history + 1 \<le> n" by simp
        with pages obtain h where h: "fetch (Page history + 1) = Inr (h, None)" "PageSize h \<noteq> 0"
          "\<forall>he\<in>set (Records h). \<not> sameShow (queue ! j) he"
          by blast
        let ?h' = "history\<lparr>Records := Records history @ Records h, Page := Page history + 1\<rparr>"
        have addp: "addPageToHistory fetch history = Inr ?h'"
          using h(1,2) by (simp add: addPageToHistory_def GetHistory_def)
        have "loadLoop fetch queue i ?h' shows = Some (Inl noMoreItems)"
          using less.prems h(3) rng False by (intro less.hyps) auto
        with step addp show ?thesis by simp
      qed
    qed
  qed
qed

text \<open>
  Claim C1, amended.  If a candidate queue entry has no matching record in any page of the
  history and the history source then reports a page of size zero, \<open>loadFailedShows\<close>
  returns the error of that page and no shows: the entry is not abandoned, the run as a
  whole fails.
\<close>

theorem exhausted_history_fails_run:
  assumes "GetQueue = Inr queue" and "q \<in> set queue" and "isCandidate q"
    and "0 \<le> n"
    and "\<forall>p. 1 \<le> p \<and> p \<le> n \<longrightarrow>
          (\<exists>h. fetch p = Inr (h, None) \<and> PageSize h \<noteq> 0 \<and>
               (\<forall>he\<in>set (Records h). \<not> sameShow q he))"
    and "\<forall>h e. fetch 1 = Inr (h, e) \<longrightarrow> Page h = 1"
    and "fetch (n + 1) = Inr (hz, ez)" and "PageSize hz = 0"
  shows "loadFailedShows GetQueue fetch =
         Some (Inl ''history fetched 0 results, no more items'')"
proof (cases "n = 0")
  case True
  with assms(1,7,8) show ?thesis
    by (simp add: loadFailedShows_def GetHistory_def)
next
  case False
  with \<open>0 \<le> n\<close> have "1 \<le> (1::int) \<and> 1 \<le> n" by simp
  with assms(5) obtain h where h: "fetch 1 = Inr (h, None)" "PageSize h \<noteq> 0"
     "\<forall>he\<in>set (Records h). \<not> sameShow q he" by blast
  with assms(6) have p1: "Page h = 1" by simp
  from assms(2) obtain j where j: "j < length queue" "queue ! j = q"
    by (auto simp: in_set_conv_nth)
  have "loadLoop fetch queue 0 h [] = Some (Inl noMoreItems)"
    using j assms(3,5,7,8) h(3) p1 False \<open>0 \<le> n\<close>
    by (intro loadLoop_exhausted[where j=j and n=n]) auto
  with h assms(1) show ?thesis
    by (simp add: loadFailedShows_def GetHistory_def noMoreItems_def)
qed

text \<open>
  Claim C1 says that the entry without a match is abandoned and the run goes on.  With the
  queue entry \<open>ex_q2\<close> alone the run returns its show; with the entry \<open>ex_q1\<close>, which no
  record matches, in front of it the run returns the error of the exhausted history.
\<close>

theorem exhausted_history_counterexample:
  "isCandidate ex_q1 \<and> isCandidate ex_q2 \<and> sameShow ex_q2 ex_hB \<and>
   loadFailedShows (Inr [ex_q2]) ex_fetch = Some (Inr [mkShow ex_q2 ex_hB]) \<and>
   loadFailedShows (Inr [ex_q1, ex_q2]) ex_fetch =
     Some (Inl ''history fetched 0 results, no more items'')"
  by (simp add: loadFailedShows_def GetHistory_def ex_fetch_def loadLoop_found_step
      loadLoop_done loadLoop_page_step addPageToHistory_def
      isCandidate_def ex_q1_def ex_q2_def ex_hB_def StatusCompleted_def
      TrackedDownloadStatusWarning_def sameShow_def)

theorem exhausted_history_fails_run_witness:
  "ex_q1 \<in> set [ex_q1, ex_q2] \<and> isCandidate ex_q1 \<and>
   ex_fetch 1 = Inr (\<lparr>Page = 1, PageSize = 10, Records = [ex_hB]\<rparr>, None) \<and>
   \<not> sameShow ex_q1 ex_hB \<and>
   ex_fetch 2 = Inr (\<lparr>Page = 2, PageSize = 0, Records = []\<rparr>, None) \<and>
   loadFailedShows (Inr [ex_q1, ex_q2]) ex_fetch =
     Some (Inl ''history fetched 0 results, no more items'')"
proof -
  have 1: "ex_q1 \<in> set [ex_q1, ex_q2]" by simp
  have 2: "isCandidate ex_q1"
    by (simp add: isCandidate_def ex_q1_def StatusCompleted_def TrackedDownloadStatusWarning_def)
  have 3: "\<forall>p. 1 \<le> p \<and> p \<le> 1 \<longrightarrow>
          (\<exists>h. ex_fetch p = Inr (h, None) \<and> PageSize h \<noteq> 0 \<and>
               (\<forall>he\<in>set (Records h). \<not> sameShow ex_q1 he))"
    by (auto simp: ex_fetch_def sameShow_def ex_q1_def ex_hB_def)
  have 4: "\<forall>h e. ex_fetch 1 = Inr (h, e) \<longrightarrow> Page h = 1"
    by (auto simp: ex_fetch_def)
  have 5: "ex_fetch (1 + 1) = Inr (\<lparr>Page = 2, PageSize = 0, Records = []\<rparr>, None)"
    by (simp add: ex_fetch_def)
  have 6: "\<not> sameShow ex_q1 ex_hB"
    by (simp add: sameShow_def ex_q1_def ex_hB_def)
  have 7: "ex_fetch 1 = Inr (\<lparr>Page = 1, PageSize = 10, Records = [ex_hB]\<rparr>, None)"
    by (simp add: ex_fetch_def)
  have 8: "ex_fetch 2 = Inr (\<lparr>Page = 2, PageSize = 0, Records = []\<rparr>, None)"
    by (simp add: ex_fetch_def)
  show ?thesis
    using exhausted_history_fails_run[OF refl 1 2 _ 3 4 5] 2 6 7 8
    by simp
qed

section \<open>Properties of the guessed names\<close>

lemma matchAt_iff:
  "matchAt a b t \<longleftrightarrow>
     (\<exists>rest k post. t = a @ rest \<and> k \<le> 4 \<and> skipDots k rest = Some (b @ post))"
proof
  assume "matchAt a b t"
  then obtain k r where pa: "prefix a t" and k: "k < 5"
    and s: "skipDots k (drop (length a) t) = Some r" and pb: "prefix b r"
    by (auto simp: matchAt_def split: option.splits)
  from pa obtain rest where "t = a @ rest" by (auto simp: prefix_def)
  moreover from pb obtain post where "r = b @ post" by (auto simp: prefix_def)
  ultimately have "t = a @ rest \<and> k \<le> 4 \<and> skipDots k rest = Some (b @ post)"
    using k s by simp
  then show "\<exists>rest k post. t = a @ rest \<and> k \<le> 4 \<and> skipDots k rest = Some (b @ post)"
    by blast
next
  assume "\<exists>rest k post. t = a @ rest \<and> k \<le> 4 \<and> skipDots k rest = Some (b @ post)"
  then obtain rest k post where t: "t = a @ rest" and k: "k \<le> 4"
    and s: "skipDots k rest = Some (b @ post)" by blast
  have "k \<in> set [0..<5]" using k by simp
  moreover have "(case skipDots k (drop (length a) t) of Some r \<Rightarrow> prefix b r | None \<Rightarrow> False)"
    using t s by simp
  moreover have "prefix a t" using t by simp
  ultimately show "matchAt a b t" unfolding matchAt_def by blast
qed

lemma regexp_MatchString_iff:
  "regexp_MatchString a b t \<longleftrightarrow>
     (\<exists>pre rest k post. t = pre @ a @ rest \<and> k \<le> 4 \<and> skipDots k rest = Some (b @ post))"
proof (induction t)
  case Nil
  show ?case by (auto simp: matchAt_iff)
next
  case (Cons c cs)
  show ?case (is "?L = ?R")
  proof
    assume ?L
    then consider "matchAt a b (c # cs)" | "regexp_MatchString a b cs" by auto
    then show ?R
    proof cases
      case 1
      then obtain rest k post where "c # cs = [] @ a @ rest" "k \<le> 4"
        "skipDots k rest = Some (b @ post)" by (auto simp: matchAt_iff)
      then show ?thesis by blast
    next
      case 2
      with Cons.IH obtain pre rest k post where "cs = pre @ a @ rest" "k \<le> 4"
        "skipDots k rest = Some (b @ post)" by blast
      then have "c # cs = (c # pre) @ a @ rest \<and> k \<le> 4 \<and> skipDots k rest = Some (b @ post)"
        by simp
      then show ?thesis by blast
    qed
  next
    assume ?R
    then obtain pre rest k post where t: "c # cs = pre @ a @ rest" and g: "k \<le> 4"
        "skipDots k rest = Some (b @ post)" by blast
    show ?L
    proof (cases pre)
      case Nil
      with t g have "matchAt a b (c # cs)" unfolding matchAt_iff by auto
      then show ?thesis by simp
    next
      case (Cons x pre')
      with t have "cs = pre' @ a @ rest" by simp
      with g Cons.IH have "regexp_MatchString a b cs" by blast
      then show ?thesis by simp
    qed
  qed
qed

lemma regexp_MatchString_matchesPattern:
  "regexp_MatchString (Sprintf_d season) (Sprintf_d episode) t = matchesPattern season episode t"
  by (simp add: regexp_MatchString_iff matchesPattern_def)

text \<open>
  On ASCII text a code point is a byte, and \<open>k\<close> dots accept any \<open>k\<close> characters that
  are not line feeds.
\<close>

lemma runeWidth_ascii: "(of_char c :: nat) < 128 \<Longrightarrow> runeWidth (c # cs) = 1"
  by (simp add: runeWidth_def Let_def)

lemma skipDots_ascii:
  "\<forall>c\<in>set gap. (of_char c :: nat) < 128 \<and> c \<noteq> CHR 0x0A \<Longrightarrow>
   skipDots (length gap) (gap @ r) = Some r"
  by (induction gap) (simp_all add: dotStep_def runeWidth_ascii)

lemma skipDots_ascii_split:
  "\<forall>c\<in>set t. (of_char c :: nat) < 128 \<Longrightarrow> skipDots k t = Some r \<Longrightarrow>
   \<exists>gap. t = gap @ r \<and> length gap = k \<and> CHR 0x0A \<notin> set gap"
proof (induction k arbitrary: t)
  case 0
  then show ?case by simp
next
  case (Suc k)
  from Suc.prems(2) obtain c cs where t: "t = c # cs" and nl: "c \<noteq> CHR 0x0A"
    and s: "skipDots k cs = Some r"
    using Suc.prems(1)
    by (cases t) (auto simp: dotStep_def runeWidth_ascii split: if_splits option.splits)
  from Suc.IH[OF _ s] Suc.prems(1) t obtain gap where
    "cs = gap @ r" "length gap = k" "CHR 0x0A \<notin> set gap" by auto
  with t nl have "t = (c # gap) @ r \<and> length (c # gap) = Suc k \<and> CHR 0x0A \<notin> set (c # gap)"
    by simp
  then show ?case by blast
qed

lemma matchesPattern_ascii:
  assumes "\<forall>c\<in>set t. (of_char c :: nat) < 128"
  shows "matchesPattern season episode t \<longleftrightarrow>
     (\<exists>pre gap post. t = pre @ Sprintf_d season @ gap @ Sprintf_d episode @ post \<and>
        length gap \<le> 4 \<and> CHR 0x0A \<notin> set gap)"
proof
  assume "matchesPattern season episode t"
  then obtain pre rest k post where t: "t = pre @ Sprintf_d season @ rest" and k: "k \<le> 4"
    and s: "skipDots k rest = Some (Sprintf_d episode @ post)"
    by (auto simp: matchesPattern_def)
  from assms t have "\<forall>c\<in>set rest. (of_char c :: nat) < 128" by simp
  from skipDots_ascii_split[OF this s] obtain gap where
    "rest = gap @ Sprintf_d episode @ post" "length gap = k" "CHR 0x0A \<notin> set gap" by blast
  with t k have "t = pre @ Sprintf_d season @ gap @ Sprintf_d episode @ post \<and>
        length gap \<le> 4 \<and> CHR 0x0A \<notin> set gap" by simp
  then show "\<exists>pre gap post. t = pre @ Sprintf_d season @ gap @ Sprintf_d episode @ post \<and>
        length gap \<le> 4 \<and> CHR 0x0A \<notin> set gap" by blast
next
  assume "\<exists>pre gap post. t = pre @ Sprintf_d season @ gap @ Sprintf_d episode @ post \<and>
        length gap \<le> 4 \<and> CHR 0x0A \<notin> set gap"
  then obtain pre gap post where t: "t = pre @ Sprintf_d season @ gap @ Sprintf_d episode @ post"
    and g: "length gap \<le> 4" "CHR 0x0A \<notin> set gap" by blast
  from assms t g(2) have "\<forall>c\<in>set gap. (of_char c :: nat) < 128 \<and> c \<noteq> CHR 0x0A" by auto
  from skipDots_ascii[OF this, of "Sprintf_d episode @ post"] t g(1)
  show "matchesPattern season episode t"
    unfolding matchesPattern_def by blast
qed

text \<open>The numeral that \<open>%d\<close> writes reads back as the number.\<close>

lemma digit_char_value: "d < 10 \<Longrightarrow> (of_char (digit_char d) :: nat) - 48 = d"
proof -
  assume "d < 10"
  then have "d = 0 \<or> d = 1 \<or> d = 2 \<or> d = 3 \<or> d = 4 \<or> d = 5 \<or> d = 6 \<or> d = 7 \<or> d = 8 \<or> d = 9"
    by arith
  then show ?thesis by (elim disjE) (simp_all add: digit_char_def)
qed

lemma digitsValue_decimal: "digitsValue (decimal n) = n"
proof (induction n rule: decimal.induct)
  case (1 n)
  show ?case
  proof (cases "n < 10")
    case True
    then show ?thesis
      by (subst decimal.simps) (simp add: digitsValue_def digit_char_value)
  next
    case False
    have "digitsValue (decimal n) =
        10 * digitsValue (decimal (n div 10)) + (of_char (digit_char (n mod 10)) - 48)"
      using False by (subst decimal.simps) (simp add: digitsValue_def)
    also have "\<dots> = 10 * (n div 10) + n mod 10"
      using 1[OF False] by (simp add: digit_char_value)
    also have "\<dots> = n" by simp
    finally show ?thesis .
  qed
qed

lemma digit_char_digit: "digit_char d \<in> set ''0123456789''"
  by (simp add: digit_char_def)

lemma decimal_digits: "\<forall>c\<in>set (decimal n). c \<in> set ''0123456789''"
proof (induction n rule: decimal.induct)
  case (1 n)
  show ?case
  proof (cases "n < 10")
    case True
    then have "decimal n = [digit_char n]" by (subst decimal.simps) simp
    then show ?thesis using digit_char_digit[of n] by simp
  next
    case False
    then have "decimal n = decimal (n div 10) @ [digit_char (n mod 10)]"
      by (subst decimal.simps) simp
    then show ?thesis using 1[OF False] digit_char_digit[of "n mod 10"] by auto
  qed
qed

lemma decimal_not_Nil: "decimal n \<noteq> []"
  by (subst decimal.simps) simp

lemma Sprintf_d_value:
  "\<exists>ds. Sprintf_d n = (if n < 0 then CHR ''-'' # ds else ds) \<and> ds \<noteq> [] \<and>
        (\<forall>c\<in>set ds. c \<in> set ''0123456789'') \<and> digitsValue ds = nat \<bar>n\<bar>"
proof (cases "n < 0")
  case True
  then have "Sprintf_d n = (if n < 0 then CHR ''-'' # decimal (nat (- n)) else decimal (nat (- n)))"
    by (simp add: Sprintf_d_def)
  moreover have "digitsValue (decimal (nat (- n))) = nat \<bar>n\<bar>"
    using True by (simp add: digitsValue_decimal)
  ultimately show ?thesis using decimal_digits decimal_not_Nil by blast
next
  case False
  then have "Sprintf_d n = (if n < 0 then CHR ''-'' # decimal (nat n) else decimal (nat n))"
    by (simp add: Sprintf_d_def)
  moreover have "digitsValue (decimal (nat n)) = nat \<bar>n\<bar>"
    using False by (simp add: digitsValue_decimal)
  ultimately show ?thesis using decimal_digits decimal_not_Nil by blast
qed

text \<open>
  Claim C7, amended.  With exactly one status message, \<open>guessFileName\<close> returns the title
  of that message as it is.  Otherwise it returns the title of the first status message
  that matches the pattern made of the season number, zero to four code points none of
  which is a line feed, and the episode number; when no status message matches, it fails
  with an error that names the entry.  On an ASCII title the code points are the
  characters of the title.  The numbers are written in decimal digits, after a minus sign
  when negative.
\<close>

theorem guessFileName_spec:
  fixes s :: Show
  defines "msgs \<equiv> q_StatusMessages (QueueElement s)"
    and "season \<equiv> SeasonNumber (q_Episode (QueueElement s))"
    and "episode \<equiv> EpisodeNumber (q_Episode (QueueElement s))"
  shows "(length msgs = 1 \<longrightarrow> guessFileName s = Inr (Title (msgs ! 0))) \<and>
    (length msgs \<noteq> 1 \<longrightarrow>
       (\<forall>i<length msgs.
          matchesPattern season episode (Title (msgs ! i)) \<and>
          (\<forall>j<i. \<not> matchesPattern season episode (Title (msgs ! j))) \<longrightarrow>
          guessFileName s = Inr (Title (msgs ! i)))) \<and>
    (length msgs \<noteq> 1 \<and> (\<forall>m\<in>set msgs. \<not> matchesPattern season episode (Title m)) \<longrightarrow>
       guessFileName s =
         Inl (''imposible to guess file name for '' @ q_Title (QueueElement s))) \<and>
    (\<forall>t. (\<forall>c\<in>set t. (of_char c :: nat) < 128) \<longrightarrow>
       matchesPattern season episode t =
         (\<exists>pre gap post. t = pre @ Sprintf_d season @ gap @ Sprintf_d episode @ post \<and>
            length gap \<le> 4 \<and> CHR 0x0A \<notin> set gap)) \<and>
    (\<forall>n. \<exists>ds. Sprintf_d n = (if n < 0 then CHR ''-'' # ds else ds) \<and> ds \<noteq> [] \<and>
        (\<forall>c\<in>set ds. c \<in> set ''0123456789'') \<and> digitsValue ds = nat \<bar>n\<bar>)"
proof (intro conjI impI allI)
  assume "length msgs = 1"
  then show "guessFileName s = Inr (Title (msgs ! 0))"
    by (simp add: guessFileName_def msgs_def)
next
  fix i
  assume n1: "length msgs \<noteq> 1" and i: "i < length msgs"
    and m: "matchesPattern season episode (Title (msgs ! i)) \<and>
            (\<forall>j<i. \<not> matchesPattern season episode (Title (msgs ! j)))"
  have "find (\<lambda>message. matchesPattern season episode (Title message)) msgs = Some (msgs ! i)"
    unfolding find_Some_iff using i m by blast
  with n1 show "guessFileName s = Inr (Title (msgs ! i))"
    by (simp add: guessFileName_def msgs_def season_def episode_def
        regexp_MatchString_matchesPattern)
next
  assume a: "length msgs \<noteq> 1 \<and> (\<forall>m\<in>set msgs. \<not> matchesPattern season episode (Title m))"
  then have "find (\<lambda>message. matchesPattern season episode (Title message)) msgs = None"
    unfolding find_None_iff by blast
  with a show "guessFileName s =
         Inl (''imposible to guess file name for '' @ q_Title (QueueElement s))"
    by (simp add: guessFileName_def msgs_def season_def episode_def
        regexp_MatchString_matchesPattern)
next
  fix t
  assume "\<forall>c\<in>set t. (of_char c :: nat) < 128"
  then show "matchesPattern season episode t =
         (\<exists>pre gap post. t = pre @ Sprintf_d season @ gap @ Sprintf_d episode @ post \<and>
            length gap \<le> 4 \<and> CHR 0x0A \<notin> set gap)"
    by (rule matchesPattern_ascii)
next
  fix n
  show "\<exists>ds. Sprintf_d n = (if n < 0 then CHR ''-'' # ds else ds) \<and> ds \<noteq> [] \<and>
        (\<forall>c\<in>set ds. c \<in> set ''0123456789'') \<and> digitsValue ds = nat \<bar>n\<bar>"
    by (rule Sprintf_d_value)
qed

lemma ex_accents_match: "matchesPattern 12 3 ex_title_accents"
  unfolding regexp_MatchString_matchesPattern[symmetric] by code_simp

lemma ex_sample_no_match: "\<not> matchesPattern 12 3 ''Sample.mkv''"
  unfolding regexp_MatchString_matchesPattern[symmetric] by code_simp

lemma ex_five_no_match: "\<not> matchesPattern 12 3 ex_title_five"
  unfolding regexp_MatchString_matchesPattern[symmetric] by code_simp

lemma ex_q12_fields:
  "q_StatusMessages (QueueElement (mkShow (ex_q12 ts) he)) = map (\<lambda>t. \<lparr>Title = t\<rparr>) ts"
  "SeasonNumber (q_Episode (QueueElement (mkShow (ex_q12 ts) he))) = 12"
  "EpisodeNumber (q_Episode (QueueElement (mkShow (ex_q12 ts) he))) = 3"
  "q_Title (QueueElement (mkShow (ex_q12 ts) he)) = ''Delta''"
  by (simp_all add: mkShow_def ex_q12_def)

text \<open>
  Claim C7 says that any zero to four characters may stand between the numbers.  The dot
  of the pattern does not accept the line feed: the title \<open>12\<close>, line feed, \<open>3\<close> is the
  first of two status messages of an entry of season 12, episode 3, and \<open>guessFileName\<close>
  fails.
\<close>

theorem guessFileName_counterexample:
  "ex_title_linefeed = Sprintf_d 12 @ [CHR 0x0A] @ Sprintf_d 3 \<and>
   q_StatusMessages (QueueElement (mkShow (ex_q12 [ex_title_linefeed, ''x'']) ex_hB)) =
     [\<lparr>Title = ex_title_linefeed\<rparr>, \<lparr>Title = ''x''\<rparr>] \<and>
   guessFileName (mkShow (ex_q12 [ex_title_linefeed, ''x'']) ex_hB) =
     Inl ''imposible to guess file name for Delta''"
  by code_simp

theorem guessFileName_spec_witness:
  "guessFileName (mkShow ex_q2 ex_hB) = Inr ''Beta.S01E02.mkv'' \<and>
   guessFileName (mkShow (ex_q12 [''Sample.mkv'', ex_title_accents]) ex_hB) =
     Inr ex_title_accents \<and>
   guessFileName (mkShow (ex_q12 [''Sample.mkv'', ex_title_five]) ex_hB) =
     Inl ''imposible to guess file name for Delta'' \<and>
   matchesPattern 12 3 ''Delta.12x03.mkv'' \<and>
   Sprintf_d 12 = ''12'' \<and> Sprintf_d 3 = ''3''"
proof (intro conjI)
  show "guessFileName (mkShow ex_q2 ex_hB) = Inr ''Beta.S01E02.mkv''"
    using guessFileName_spec[of "mkShow ex_q2 ex_hB"] by (simp add: mkShow_def ex_q2_def)
  show "guessFileName (mkShow (ex_q12 [''Sample.mkv'', ex_title_accents]) ex_hB) =
     Inr ex_title_accents"
    using guessFileName_spec[of "mkShow (ex_q12 [''Sample.mkv'', ex_title_accents]) ex_hB"]
      ex_accents_match ex_sample_no_match
    by (simp add: ex_q12_fields All_less_Suc2 del: One_nat_def)
  show "guessFileName (mkShow (ex_q12 [''Sample.mkv'', ex_title_five]) ex_hB) =
     Inl ''imposible to guess file name for Delta''"
    using guessFileName_spec[of "mkShow (ex_q12 [''Sample.mkv'', ex_title_five]) ex_hB"]
      ex_sample_no_match ex_five_no_match
    by (simp add: ex_q12_fields)
  show d12: "Sprintf_d 12 = ''12''" by code_simp
  show d3: "Sprintf_d 3 = ''3''" by code_simp
  have ascii: "\<forall>c\<in>set ''Delta.12x03.mkv''. (of_char c :: nat) < 128" by simp
  have "''Delta.12x03.mkv'' = ''Delta.'' @ Sprintf_d 12 @ ''x0'' @ Sprintf_d 3 @ ''.mkv'' \<and>
        length ''x0'' \<le> 4 \<and> CHR 0x0A \<notin> set ''x0''"
    by (simp add: d12 d3)
  then have "\<exists>pre gap post. ''Delta.12x03.mkv'' = pre @ Sprintf_d 12 @ gap @ Sprintf_d 3 @ post \<and>
        length gap \<le> 4 \<and> CHR 0x0A \<notin> set gap" by blast
  with guessFileName_spec[of "mkShow (ex_q12 []) ex_hB"] ascii
  show "matchesPattern 12 3 ''Delta.12x03.mkv''"
    by (simp only: ex_q12_fields)
qed

lemma tagAt_iff:
  "tagAt t k \<longleftrightarrow>
     (\<exists>a frag b post. t = a # frag @ b # post \<and> length frag = k \<and> isSeparator a \<and>
        isSeparator b \<and> (\<forall>c\<in>set frag. isTagChar c))"
proof
  assume h: "tagAt t k"
  then have len: "k + 2 \<le> length t" by (simp add: tagAt_def)
  then obtain a r where t: "t = a # r" by (cases t) auto
  with len have lr: "k + 1 \<le> length r" by simp
  have r: "r = take k r @ drop k r" by simp
  from lr obtain b post where d: "drop k r = b # post" by (cases "drop k r") auto
  have "r ! k = b" using d lr by (metis Cons_nth_drop_Suc Suc_eq_plus1 Suc_le_lessD list.inject)
  with h t have "isSeparator a" "isSeparator b" "\<forall>c\<in>set (take k r). isTagChar c"
    by (auto simp: tagAt_def)
  moreover have "t = a # take k r @ b # post" using t r d by simp
  moreover have "length (take k r) = k" using lr by simp
  ultimately show "\<exists>a frag b post. t = a # frag @ b # post \<and> length frag = k \<and> isSeparator a \<and>
        isSeparator b \<and> (\<forall>c\<in>set frag. isTagChar c)" by blast
next
  assume "\<exists>a frag b post. t = a # frag @ b # post \<and> length frag = k \<and> isSeparator a \<and>
        isSeparator b \<and> (\<forall>c\<in>set frag. isTagChar c)"
  then obtain a frag b post where "t = a # frag @ b # post" "length frag = k" "isSeparator a"
        "isSeparator b" "\<forall>c\<in>set frag. isTagChar c" by blast
  then show "tagAt t k" by (auto simp: tagAt_def nth_append)
qed

lemma find_rev_upt:
  "find P (rev [lo..<hi]) = Some k \<Longrightarrow>
     P k \<and> lo \<le> k \<and> k < hi \<and> (\<forall>k'. k < k' \<and> k' < hi \<longrightarrow> \<not> P k')"
proof (induction hi)
  case 0
  then show ?case by simp
next
  case (Suc hi)
  show ?case
  proof (cases "lo \<le> hi")
    case False
    with Suc.prems show ?thesis by simp
  next
    case True
    show ?thesis
    proof (cases "P hi")
      case ph: True
      with True Suc.prems have "k = hi" by simp
      with ph True show ?thesis by (auto simp: less_Suc_eq)
    next
      case False
      with True Suc.prems have "find P (rev [lo..<hi]) = Some k" by simp
      from Suc.IH[OF this] False show ?thesis
        by (auto simp: less_Suc_eq)
    qed
  qed
qed

lemma tag_lengths: "[10, 9, 8, 7, 6, 5, 4, 3, 2] = rev [2..<11::nat]"
  by (simp add: upt_rec)

lemma matchHere_Some:
  assumes "matchHere t = Some k"
  shows "tagAt t k \<and> 2 \<le> k \<and> k \<le> 10 \<and> (\<forall>k'. k < k' \<and> k' \<le> 10 \<longrightarrow> \<not> tagAt t k')"
proof -
  from assms have "find (tagAt t) (rev [2..<11]) = Some k"
    unfolding matchHere_def tag_lengths .
  from find_rev_upt[OF this] show ?thesis by (auto simp: less_Suc_eq_le)
qed

lemma matchHere_None:
  assumes "matchHere t = None" and "2 \<le> k" and "k \<le> 10"
  shows "\<not> tagAt t k"
proof -
  from assms(2,3) have "k \<in> set [10, 9, 8, 7, 6, 5, 4, 3, 2::nat]"
    by (simp del: One_nat_def) arith
  with assms(1) show ?thesis
    unfolding matchHere_def find_None_iff by blast
qed

lemma fragment_prefix_tagAt:
  assumes "isTagFragment lo hi m"
  shows "\<exists>k. lo \<le> k \<and> k \<le> hi \<and> length m = k + 2 \<and> tagAt (m @ post) k"
proof -
  from assms obtain a frag b where m: "m = a # frag @ [b]" "isSeparator a" "isSeparator b"
    "lo \<le> length frag" "length frag \<le> hi" "\<forall>c\<in>set frag. isTagChar c"
    by (auto simp: isTagFragment_def)
  then have "m @ post = a # frag @ b # post" by simp
  with m have "tagAt (m @ post) (length frag)" unfolding tagAt_iff by blast
  with m show ?thesis by auto
qed

lemma tagAt_fragment:
  assumes "tagAt t k"
  shows "isTagFragment k k (take (k + 2) t)"
proof -
  from assms obtain a frag b post where t: "t = a # frag @ b # post" "length frag = k"
    "isSeparator a" "isSeparator b" "\<forall>c\<in>set frag. isTagChar c"
    unfolding tagAt_iff by blast
  then have "take (k + 2) t = a # frag @ [b]" by simp
  with t show ?thesis unfolding isTagFragment_def by blast
qed

lemma isTagFragment_mono:
  "isTagFragment k k m \<Longrightarrow> lo \<le> k \<Longrightarrow> k \<le> hi \<Longrightarrow> isTagFragment lo hi m"
  by (auto simp: isTagFragment_def)

lemma fragment_not_empty: "isTagFragment lo hi m \<Longrightarrow> m \<noteq> []"
  by (auto simp: isTagFragment_def)

lemma regexFind_None:
  "regexFind t = None \<longleftrightarrow> \<not> containsTagFragment 2 10 t"
proof (induction t)
  case Nil
  show ?case by (auto simp: containsTagFragment_def dest: fragment_not_empty)
next
  case (Cons c cs)
  show ?case
  proof (cases "matchHere (c # cs)")
    case (Some k)
    from matchHere_Some[OF this] have "tagAt (c # cs) k" "2 \<le> k" "k \<le> 10" by auto
    then have "isTagFragment 2 10 (take (k + 2) (c # cs))"
      by (intro isTagFragment_mono[OF tagAt_fragment])
    moreover have "c # cs = [] @ take (k + 2) (c # cs) @ drop (k + 2) (c # cs)" by simp
    ultimately have "containsTagFragment 2 10 (c # cs)"
      unfolding containsTagFragment_def by blast
    with Some show ?thesis by simp
  next
    case None
    have "containsTagFragment 2 10 (c # cs) \<longleftrightarrow> containsTagFragment 2 10 cs"
    proof
      assume "containsTagFragment 2 10 (c # cs)"
      then obtain pre m post where t: "c # cs = pre @ m @ post" and m: "isTagFragment 2 10 m"
        by (auto simp: containsTagFragment_def)
      show "containsTagFragment 2 10 cs"
      proof (cases pre)
        case Nil
        from fragment_prefix_tagAt[OF m, of post] obtain k where
          "2 \<le> k" "k \<le> 10" "tagAt (m @ post) k" by blast
        with matchHere_None[OF None] t Nil show ?thesis by auto
      next
        case (Cons x pre')
        with t have "cs = pre' @ m @ post" by simp
        with m show ?thesis unfolding containsTagFragment_def by blast
      qed
    next
      assume "containsTagFragment 2 10 cs"
      then obtain pre m post where "cs = pre @ m @ post" and m: "isTagFragment 2 10 m"
        by (auto simp: containsTagFragment_def)
      then have "c # cs = (c # pre) @ m @ post" by simp
      with m show "containsTagFragment 2 10 (c # cs)" unfolding containsTagFragment_def by blast
    qed
    with None Cons.IH show ?thesis by simp
  qed
qed

lemma regexFind_Some:
  "regexFind t = Some m \<Longrightarrow>
     \<exists>pre post. firstLongest t pre m post \<and> strings_Replace1 t m new = pre @ new @ post"
proof (induction t)
  case Nil
  then show ?case by simp
next
  case (Cons c cs)
  show ?case
  proof (cases "matchHere (c # cs)")
    case (Some k)
    from matchHere_Some[OF this] have k: "tagAt (c # cs) k" "2 \<le> k" "k \<le> 10"
      and kmax: "\<And>k'. k < k' \<Longrightarrow> k' \<le> 10 \<Longrightarrow> \<not> tagAt (c # cs) k'" by auto
    from Some Cons.prems have m: "m = take (k + 2) (c # cs)" by simp
    let ?post = "drop (k + 2) (c # cs)"
    have t: "c # cs = [] @ m @ ?post" using m by simp
    have lm: "length m = k + 2" using m k(1) by (simp add: tagAt_def)
    have frag: "isTagFragment 2 10 m"
      unfolding m using k by (intro isTagFragment_mono[OF tagAt_fragment])
    have longest: "length m' \<le> length m"
      if "c # cs = [] @ m' @ post'" "isTagFragment 2 10 m'" for m' post'
    proof -
      from fragment_prefix_tagAt[OF that(2), of post'] obtain k' where
        k': "2 \<le> k'" "k' \<le> 10" "length m' = k' + 2" "tagAt (m' @ post') k'" by blast
      with that(1) have "tagAt (c # cs) k'" by simp
      with kmax k'(2) have "k' \<le> k" by (meson not_le_imp_less)
      with k'(3) lm show ?thesis by simp
    qed
    have fl: "firstLongest (c # cs) [] m ?post"
      unfolding firstLongest_def
    proof (intro conjI allI impI)
      show "c # cs = [] @ m @ ?post" by (rule t)
      show "isTagFragment 2 10 m" by (rule frag)
      show "length ([]::string) \<le> length pre'" for pre' by simp
      show "length m' \<le> length m"
        if "c # cs = [] @ m' @ post' \<and> isTagFragment 2 10 m'" for m' post'
        using that longest by blast
    qed
    have "prefix m (c # cs)" unfolding m by (rule take_is_prefix)
    then have "strings_Replace1 (c # cs) m new = new @ drop (length m) (c # cs)" by simp
    then have "strings_Replace1 (c # cs) m new = [] @ new @ ?post"
      by (simp only: lm append_Nil)
    with fl show ?thesis by blast
  next
    case None
    with Cons.prems have "regexFind cs = Some m" by simp
    from Cons.IH[OF this] obtain pre post where fl: "firstLongest cs pre m post"
      and rp: "strings_Replace1 cs m new = pre @ new @ post" by blast
    from fl have cs: "cs = pre @ m @ post" and frag: "isTagFragment 2 10 m"
      by (auto simp: firstLongest_def)
    have nohere: "\<not> (c # cs = m' @ post' \<and> isTagFragment 2 10 m')" for m' post'
    proof
      assume a: "c # cs = m' @ post' \<and> isTagFragment 2 10 m'"
      from fragment_prefix_tagAt[of 2 10 m' post'] a obtain k' where
        "2 \<le> k'" "k' \<le> 10" "tagAt (m' @ post') k'" by blast
      with matchHere_None[OF None] a show False by auto
    qed
    have first: "length (c # pre) \<le> length pre'"
      if "c # cs = pre' @ m' @ post'" "isTagFragment 2 10 m'" for pre' m' post'
    proof (cases pre')
      case Nil
      with that nohere[of m' post'] show ?thesis by simp
    next
      case (Cons x p)
      with that(1) have "cs = p @ m' @ post'" by simp
      with fl that(2) have "length pre \<le> length p" unfolding firstLongest_def by blast
      with Cons show ?thesis by simp
    qed
    have longest: "length m' \<le> length m"
      if "c # cs = (c # pre) @ m' @ post'" "isTagFragment 2 10 m'" for m' post'
    proof -
      from that(1) have "cs = pre @ m' @ post'" by simp
      with fl that(2) show ?thesis unfolding firstLongest_def by blast
    qed
    have fl': "firstLongest (c # cs) (c # pre) m post"
      unfolding firstLongest_def
    proof (intro conjI allI impI)
      show "c # cs = (c # pre) @ m @ post" using cs by simp
      show "isTagFragment 2 10 m" by (rule frag)
      show "length (c # pre) \<le> length pre'"
        if "c # cs = pre' @ m' @ post' \<and> isTagFragment 2 10 m'" for pre' m' post'
        using that first by blast
      show "length m' \<le> length m"
        if "c # cs = (c # pre) @ m' @ post' \<and> isTagFragment 2 10 m'" for m' post'
        using that longest by blast
    qed
    have "\<not> prefix m (c # cs)"
    proof
      assume "prefix m (c # cs)"
      then obtain post' where "c # cs = m @ post'" by (auto simp: prefix_def)
      with nohere[of m post'] frag show False by simp
    qed
    then have "strings_Replace1 (c # cs) m new = (c # pre) @ new @ post"
      using rp by simp
    with fl' show ?thesis by blast
  qed
qed

text \<open>
  Claim C4, amended.  For a queue entry with more than one status message,
  \<open>guessFinalName\<close> succeeds exactly when the source title of the history record
  contains a fragment of two to ten characters drawn from the digits, s, S, e, E, x, X,
  hyphen and underscore between two separator characters; it then replaces the first such
  fragment, separators included, by \<open>.S<season>E<episode>.\<close> with both numbers filled with
  zeros to two digits; otherwise it fails with an error that names the file name guessed
  before.
\<close>

theorem guessFinalName_spec:
  assumes "1 < length (q_StatusMessages (QueueElement s))"
  shows "(containsTagFragment 2 10 (h_SourceTitle (HistoryRecord s)) \<longrightarrow>
          (\<exists>pre m post. firstLongest (h_SourceTitle (HistoryRecord s)) pre m post \<and>
             guessFinalName s filename =
               Inr (pre @ canonicalTag (q_Episode (QueueElement s)) @ post))) \<and>
         (\<not> containsTagFragment 2 10 (h_SourceTitle (HistoryRecord s)) \<longrightarrow>
          guessFinalName s filename =
            Inl (''unable to guess final episode name of '' @ filename))"
proof (cases "regexFind (h_SourceTitle (HistoryRecord s))")
  case None
  then have "\<not> containsTagFragment 2 10 (h_SourceTitle (HistoryRecord s))"
    by (simp add: regexFind_None)
  with None assms show ?thesis
    by (simp add: guessFinalName_def tag_MatchString_def)
next
  case (Some m)
  then have c: "containsTagFragment 2 10 (h_SourceTitle (HistoryRecord s))"
    using regexFind_None[of "h_SourceTitle (HistoryRecord s)"] by simp
  from regexFind_Some[OF Some, of "canonicalTag (q_Episode (QueueElement s))"]
  obtain pre post where "firstLongest (h_SourceTitle (HistoryRecord s)) pre m post"
    "strings_Replace1 (h_SourceTitle (HistoryRecord s)) m
       (canonicalTag (q_Episode (QueueElement s))) =
     pre @ canonicalTag (q_Episode (QueueElement s)) @ post" by blast
  moreover have "guessFinalName s filename =
     Inr (strings_Replace1 (h_SourceTitle (HistoryRecord s)) m
       (canonicalTag (q_Episode (QueueElement s))))"
    using Some assms by (simp add: guessFinalName_def tag_MatchString_def tag_FindString_def)
  ultimately show ?thesis using c by auto
qed

lemma regexFind_found: "regexFind t \<noteq> None \<Longrightarrow> containsTagFragment 2 10 t"
  by (simp add: regexFind_None)

lemma ex_one_character_fragment: "containsTagFragment 1 10 ''Show.5.720p''"
proof -
  have "isTagFragment 1 10 ''.5.''"
    unfolding isTagFragment_def
    by (intro exI[of _ "CHR ''.''"] exI[of _ "''5''"]) (simp add: isSeparator_def isTagChar_def)
  moreover have "''Show.5.720p'' = ''Show'' @ ''.5.'' @ ''720p''" by simp
  ultimately show ?thesis unfolding containsTagFragment_def by blast
qed

text \<open>
  Claim C4 says that a fragment of one character is enough.  The pattern asks for two: the
  title \<open>Show.5.720p\<close> has the digit 5 between two dots and \<open>guessFinalName\<close> fails on it.
\<close>

theorem guessFinalName_counterexample:
  "1 < length (q_StatusMessages (QueueElement (mkShow ex_q4 ex_h5))) \<and>
   h_SourceTitle (HistoryRecord (mkShow ex_q4 ex_h5)) = ''Show'' @ ''.5.'' @ ''720p'' \<and>
   isSeparator CHR ''.'' \<and> isTagChar CHR ''5'' \<and>
   guessFinalName (mkShow ex_q4 ex_h5) ''Beta.1x02.mkv'' =
     Inl ''unable to guess final episode name of Beta.1x02.mkv''"
  by code_simp

theorem guessFinalName_spec_witness:
  "1 < length (q_StatusMessages (QueueElement (mkShow ex_q4 ex_hBx))) \<and>
   (\<exists>pre m post. firstLongest ''Beta.1x02.720p'' pre m post \<and>
      guessFinalName (mkShow ex_q4 ex_hBx) ''Beta.1x02.mkv'' = Inr (pre @ ''.S01E02.'' @ post)) \<and>
   guessFinalName (mkShow ex_q4 ex_hBx) ''Beta.1x02.mkv'' = Inr ''Beta.S01E02.720p''"
proof -
  have len: "1 < length (q_StatusMessages (QueueElement (mkShow ex_q4 ex_hBx)))"
    by (simp add: mkShow_def ex_q4_def)
  have "containsTagFragment 2 10 ''Beta.1x02.720p''"
    by (rule regexFind_found) code_simp
  moreover have "h_SourceTitle (HistoryRecord (mkShow ex_q4 ex_hBx)) = ''Beta.1x02.720p''"
    by (simp add: mkShow_def ex_hBx_def)
  ultimately have
    c: "containsTagFragment 2 10 (h_SourceTitle (HistoryRecord (mkShow ex_q4 ex_hBx)))"
    by simp
  have t: "canonicalTag (q_Episode (QueueElement (mkShow ex_q4 ex_hBx))) = ''.S01E02.''"
    by code_simp
  have v: "guessFinalName (mkShow ex_q4 ex_hBx) ''Beta.1x02.mkv'' = Inr ''Beta.S01E02.720p''"
    by code_simp
  from guessFinalName_spec[OF len, of "''Beta.1x02.mkv''"] c t len v show ?thesis
    by (simp add: mkShow_def ex_hBx_def)
qed

section \<open>Properties of the search for the file\<close>

lemma find_app:
  "find P (xs @ ys) = (case find P xs of Some x \<Rightarrow> Some x | None \<Rightarrow> find P ys)"
  by (induction xs) auto

lemma find_Some_mem: "find P xs = Some x \<Longrightarrow> x \<in> set xs"
  by (induction xs) (auto split: if_splits)

lemma find_Some_holds: "find P xs = Some x \<Longrightarrow> P x"
  by (induction xs) (auto split: if_splits)

lemma Clean_not_Nil: "Clean path \<noteq> []"
  by (simp add: Clean_def Let_def)

lemma Join_not_Nil: "dir \<noteq> [] \<Longrightarrow> Join dir name \<noteq> []"
  by (simp add: Join_def Clean_not_Nil)

lemma Join_examples:
  "Join ''/downloads'' ''Beta.S01E02.mkv'' = ''/downloads/Beta.S01E02.mkv''"
  "Join ''/downloads/'' ''Beta.S01E02.mkv'' = ''/downloads/Beta.S01E02.mkv''"
  "Join ''/'' ''x'' = ''/x''"
  "Join ''.'' ''x'' = ''x''"
  "Join ''a/../..'' ''x'' = ''../x''"
  "Join ''/..'' ''x'' = ''/x''"
  by code_simp+

lemma walk_find:
  "walk (\<lambda>path info location.
           case info of
             None \<Rightarrow> Panic
           | Some name \<Rightarrow>
               Returns (if name = filename then (Some ''ok'', path) else (None, location)))
      path node st =
     (case find (stopsAt filename) (walkOrder path node) of
        None \<Rightarrow> Returns (None, st)
      | Some (p, None) \<Rightarrow> Panic
      | Some (p, Some n) \<Rightarrow> Returns (Some ''ok'', p))"
  "walkEntries
      (\<lambda>path info location.
           case info of
             None \<Rightarrow> Panic
           | Some name \<Rightarrow>
               Returns (if name = filename then (Some ''ok'', path) else (None, location)))
      path entries st =
     (case find (stopsAt filename) (walkOrderEntries path entries) of
        None \<Rightarrow> Returns (None, st)
      | Some (p, None) \<Rightarrow> Panic
      | Some (p, Some n) \<Rightarrow> Returns (Some ''ok'', p))"
proof (induction path node and path entries arbitrary: st and st
       rule: walkOrder_walkOrderEntries.induct)
  case (1 path name)
  show ?case by (simp add: stopsAt_def)
next
  case (2 path name)
  show ?case by (simp add: stopsAt_def)
next
  case (3 path name entries)
  then show ?case by (simp add: stopsAt_def)
next
  case (4 path)
  show ?case by simp
next
  case (5 path e es)
  show ?case
    by (simp add: 5 find_app split: option.splits prod.splits)
qed


lemma walkOrder_paths:
  "root \<noteq> [] \<Longrightarrow> \<forall>(p, n)\<in>set (walkOrder root node). p \<noteq> []"
  "root \<noteq> [] \<Longrightarrow> \<forall>(p, n)\<in>set (walkOrderEntries root entries). p \<noteq> []"
  by (induction root node and root entries rule: walkOrder_walkOrderEntries.induct)
     (auto simp: Join_not_Nil)

text \<open>
  What \<open>locationOfFile\<close> does on every tree: the walk stops at the first entry, in the
  order of the walk, that has the file name or has no \<open>info\<close>; on the first it returns the
  path of the entry, a file or a directory, on the second it panics; without such an
  entry it returns the error that names the file name and the root.
\<close>

lemma locationOfFile_spec:
  "locationOfFile tree root filename =
     (case find (stopsAt filename) (walkOrder root (if root = [] then NoStat [] else tree)) of
        None \<Rightarrow> Returns ([], Some (filename @ '' doesn't exists inside '' @ root))
      | Some (path, None) \<Rightarrow> Panic
      | Some (path, Some name) \<Rightarrow> Returns (path, None))"
proof (cases "root = []")
  case True
  then show ?thesis by (simp add: locationOfFile_def Walk_def stopsAt_def)
next
  case False
  show ?thesis
  proof (cases "find (stopsAt filename) (walkOrder root tree)")
    case None
    with False show ?thesis by (simp add: locationOfFile_def Walk_def walk_find)
  next
    case (Some pn)
    obtain p info where pn: "pn = (p, info)" by (cases pn)
    from Some pn have "(p, info) \<in> set (walkOrder root tree)"
      by (auto dest: find_Some_mem)
    with walkOrder_paths(1)[OF False, of tree] have "p \<noteq> []" by auto
    with Some pn False show ?thesis
      by (cases info) (simp_all add: locationOfFile_def Walk_def walk_find)
  qed
qed

lemma ex_order: "walkOrder ''/downloads/'' ex_tree =
   [(''/downloads/'', Some ''downloads''),
    (''/downloads/Beta.S01E02.mkv'', Some ''Beta.S01E02.mkv''),
    (''/downloads/Beta.S01E02.mkv/Beta.S01E02.mkv'', Some ''Beta.S01E02.mkv''),
    (''/downloads/Beta.S01E02.mkv/info.nfo'', Some ''info.nfo''),
    (''/downloads/Sample.mkv'', Some ''Sample.mkv'')]"
  by code_simp

lemma locationOfFile_examples:
  "locationOfFile ex_tree ''/downloads/'' ''Beta.S01E02.mkv'' =
     Returns (''/downloads/Beta.S01E02.mkv'', None)"
  "locationOfFile ex_tree ''/downloads/'' ''info.nfo'' =
     Returns (''/downloads/Beta.S01E02.mkv/info.nfo'', None)"
  "locationOfFile ex_tree ''/downloads/'' ''Gamma.mkv'' =
     Returns ([], Some ''Gamma.mkv doesn't exists inside /downloads/'')"
  by (simp_all add: locationOfFile_spec ex_order stopsAt_def)

text \<open>
  Claim C10.  The code does not do what the claim says when the root cannot be read.  For
  a download folder that does not exist, and for an empty root path, no entry has the file
  name; \<open>locationOfFile\<close> does not return the error that names the file name and the root,
  it panics in the callback.
\<close>

theorem locationOfFile_missing_root_panics:
  "locationOfFile (NoStat ''downloads'') ''/downloads'' ''Beta.S01E02.mkv'' = Panic \<and>
   locationOfFile ex_tree [] ''Beta.S01E02.mkv'' = Panic"
  by (simp add: locationOfFile_def Walk_def)

section \<open>Properties of the move and of the renaming\<close>

text \<open>
  Claim C5, amended.  When the copy of the bytes fails, \<open>moveFromTo\<close> returns the error
  of the copy, the source file stays as it was, and the destination path holds the bytes
  written before the failure: a prefix of the source content, which may be empty, partial
  or complete.
\<close>

theorem moveFromTo_copy_failure:
  assumes "fs sourcePath = Some content" and "sourcePath \<noteq> destPath"
    and "openFails flt = None" and "createFails flt = None"
    and "copyFails flt = Some (written, err)"
  shows "moveFromTo flt fs sourcePath destPath =
           (Some (''writing to output file failed: '' @ err),
            fs(destPath \<mapsto> take written content))"
  using assms by (simp add: moveFromTo_def os_Open_def)

text \<open>
  Claim C5 says that after a failed copy the destination is absent or complete.
  \<open>moveFromTo\<close> does not remove what \<open>os.Create\<close> and \<open>io.Copy\<close> left behind: a copy of
  three bytes that fails after the first leaves a file of one byte at the destination.
\<close>

theorem moveFromTo_partial_counterexample:
  "ex_files ''/downloads/Beta.S01E02.mkv'' = Some ''abc'' \<and>
   copyFails ex_copyFault = Some (1, ''no space left on device'') \<and>
   fst (moveFromTo ex_copyFault ex_files ''/downloads/Beta.S01E02.mkv'' ''/tv/beta/Beta.mkv'') =
     Some ''writing to output file failed: no space left on device'' \<and>
   snd (moveFromTo ex_copyFault ex_files ''/downloads/Beta.S01E02.mkv'' ''/tv/beta/Beta.mkv'')
     ''/tv/beta/Beta.mkv'' = Some ''a''"
  by (simp add: moveFromTo_def os_Open_def ex_files_def ex_copyFault_def noFaults_def)

theorem moveFromTo_copy_failure_witness:
  "ex_files ''/downloads/Beta.S01E02.mkv'' = Some ''abc'' \<and>
   moveFromTo ex_copyFault ex_files ''/downloads/Beta.S01E02.mkv'' ''/tv/beta/Beta.mkv'' =
     (Some ''writing to output file failed: no space left on device'',
      ex_files(''/tv/beta/Beta.mkv'' \<mapsto> ''a''))"
proof -
  have 1: "ex_files ''/downloads/Beta.S01E02.mkv'' = Some ''abc''" by (simp add: ex_files_def)
  have 2: "''/downloads/Beta.S01E02.mkv'' \<noteq> ''/tv/beta/Beta.mkv''" by simp
  have 3: "openFails ex_copyFault = None" by (simp add: ex_copyFault_def noFaults_def)
  have 4: "createFails ex_copyFault = None" by (simp add: ex_copyFault_def noFaults_def)
  have 5: "copyFails ex_copyFault = Some (1, ''no space left on device'')"
    by (simp add: ex_copyFault_def)
  show ?thesis
    using moveFromTo_copy_failure[of ex_files "''/downloads/Beta.S01E02.mkv''" "''abc''"
        "''/tv/beta/Beta.mkv''" ex_copyFault 1 "''no space left on device''"] 1 2 3 4 5
    by simp
qed

lemma ex_paths:
  "Join ''/downloads'' ''Beta.S01E02.mkv'' = ''/downloads/Beta.S01E02.mkv''"
  "Join ''/downloads'' ''Sample.mkv'' = ''/downloads/Sample.mkv''"
  "Join ''/tv/beta'' ''Beta.S01E02.720p.mkv'' = ''/tv/beta/Beta.S01E02.720p.mkv''"
  by code_simp+

lemma ex_FixNaming:
  "FixNaming ex_env ex_files ex_show =
     Returns (None, ex_show\<lparr>HasBeenRenamed := True\<rparr>,
      [''/tv/beta/Beta.S01E02.720p.mkv'' \<mapsto> ''abc''])"
  by (simp add: FixNaming_def guessFileName_def ex_show_def mkShow_def ex_q2_def ex_hB_def
       guessFinalName_def locationOfFile_def Walk_def ex_env_def ex_files_def ex_paths Ext_def
       moveFromTo_def os_Open_def noFaults_def)

lemma fixLoop_ex:
  "fixLoop ex_env ex_files [ex_show] = Returns [''/tv/beta/Beta.S01E02.720p.mkv'' \<mapsto> ''abc'']"
  by (simp add: ex_FixNaming)

lemma loadFailedShows_ex:
  "loadFailedShows (Inr [ex_q2]) ex_fetch = Some (Inr [ex_show])"
  by (simp add: loadFailedShows_def GetHistory_def ex_fetch_def loadLoop_found_step
      loadLoop_done isCandidate_def ex_q2_def ex_hB_def ex_show_def
      StatusCompleted_def TrackedDownloadStatusWarning_def sameShow_def)

lemma FixFailedShows_never_renamed:
  assumes "FixFailedShows ev GetQueue fetch fs = Some (Returns (Inr shows, fs'))"
    and "s \<in> set shows"
  shows "\<not> HasBeenRenamed s"
proof -
  from assms(1) have "loadFailedShows GetQueue fetch = Some (Inr shows)"
    by (auto simp: FixFailedShows_def split: option.splits sum.splits outcome.splits)
  from loadFailedShows_emits[OF this assms(2)] show ?thesis
    by (auto simp: emitted_def mkShow_def)
qed

text \<open>
  Claim C2.  The code does not do what the claim says.  On the show \<open>ex_show\<close>
  \<open>FixNaming\<close> returns no error and sets the flag of its receiver, a copy; the show that
  \<open>FixFailedShows\<close> returns to its caller after the file was moved still has the flag
  unset.
\<close>

theorem FixNaming_flag_lost:
  "FixNaming ex_env ex_files ex_show =
     Returns (None, ex_show\<lparr>HasBeenRenamed := True\<rparr>,
      [''/tv/beta/Beta.S01E02.720p.mkv'' \<mapsto> ''abc'']) \<and>
   FixFailedShows ex_env (Inr [ex_q2]) ex_fetch ex_files =
     Some (Returns (Inr [ex_show], [''/tv/beta/Beta.S01E02.720p.mkv'' \<mapsto> ''abc''])) \<and>
   HasBeenRenamed ex_show = False"
  by (simp add: ex_FixNaming FixFailedShows_def loadFailedShows_ex fixLoop_ex)
     (simp add: ex_show_def mkShow_def)

section \<open>Properties of the wait for a command\<close>

lemma pollLoop_run:
  "totalWait \<le> MaxTime \<Longrightarrow>
   pollLoop status cs polls totalWait =
     (if completedOk (status polls (cs_ID cs)) then (True, fst (status polls (cs_ID cs)), polls + 1)
      else pollLoop status (fst (status polls (cs_ID cs))) (polls + 1) (totalWait + CheckInterval))"
  by (subst pollLoop.simps) (simp add: completedOk_def split: prod.splits)

lemma pollLoop_stop:
  "\<not> totalWait \<le> MaxTime \<Longrightarrow> pollLoop status cs polls totalWait = (False, cs, polls)"
  by (subst pollLoop.simps) simp

lemma pollAnswer_shift:
  "pollAnswer status cs before (Suc k) =
   pollAnswer status (fst (status before (cs_ID cs))) (Suc before) k"
  by (induction k) simp_all

lemma pollLoop_completes:
  "totalWait + int n * CheckInterval \<le> MaxTime \<Longrightarrow>
   \<forall>k<n. \<not> completedOk (pollAnswer status cs before k) \<Longrightarrow>
   completedOk (pollAnswer status cs before n) \<Longrightarrow>
   pollLoop status cs before totalWait =
     (True, fst (pollAnswer status cs before n), before + Suc n)"
proof (induction n arbitrary: cs before totalWait)
  case 0
  then show ?case by (simp add: pollLoop_run)
next
  case (Suc n)
  have ci: "0 \<le> CheckInterval" by (simp add: CheckInterval_def)
  have "0 \<le> int (Suc n) * CheckInterval" using ci by simp
  with Suc.prems(1) have tw: "totalWait \<le> MaxTime" by linarith
  from Suc.prems(2) have first: "\<not> completedOk (status before (cs_ID cs))"
    by (metis pollAnswer.simps(1) zero_less_Suc)
  let ?cs = "fst (status before (cs_ID cs))"
  have 1: "totalWait + CheckInterval + int n * CheckInterval \<le> MaxTime"
    using Suc.prems(1) by (simp add: algebra_simps)
  have 2: "\<forall>k<n. \<not> completedOk (pollAnswer status ?cs (Suc before) k)"
    using Suc.prems(2) by (auto simp add: pollAnswer_shift[symmetric])
  have 3: "completedOk (pollAnswer status ?cs (Suc before) n)"
    using Suc.prems(3) by (simp only: pollAnswer_shift)
  from Suc.IH[OF 1 2 3] tw first show ?case
    by (simp add: pollLoop_run pollAnswer_shift[symmetric])
qed

lemma pollLoop_never:
  "\<forall>k id. \<not> completedOk (status k id) \<Longrightarrow> fst (pollLoop status cs polls totalWait) = False"
proof (induction status cs polls totalWait rule: pollLoop.induct)
  case (1 status cs polls totalWait)
  show ?case
  proof (cases "totalWait \<le> MaxTime")
    case False
    then show ?thesis by (simp add: pollLoop_stop)
  next
    case True
    obtain cs' err where r: "status polls (cs_ID cs) = (cs', err)" by (cases "status polls (cs_ID cs)")
    from "1.prems" have nc: "\<not> completedOk (status polls (cs_ID cs))" by blast
    then have "\<not> (err = None \<and> cs_State cs' = CommandStateCompleted)"
      using r by (simp add: completedOk_def)
    from "1.IH"[OF True r[symmetric] this "1.prems"] True nc r show ?thesis
      by (simp add: pollLoop_run)
  qed
qed

lemma attemptLoop_never:
  "\<forall>k id. \<not> completedOk (GetCommandStatus a k id) \<Longrightarrow>
   \<exists>cs' polls'. attemptLoop a c retries i cs submits polls =
     (cs', Some (timeoutError c), submits + nat (retries - i), polls')"
proof (induction a c retries i cs submits polls rule: attemptLoop.induct)
  case (1 a c retries i cs submits polls)
  show ?case
  proof (cases "i < retries")
    case False
    then show ?thesis by (subst attemptLoop.simps) (simp add: timeoutError_def)
  next
    case True
    then have n: "submits + 1 + nat (retries - (i + 1)) = submits + nat (retries - i)" by simp
    obtain cs' err where e: "ExecuteCommand a submits c = (cs', err)"
      by (cases "ExecuteCommand a submits c")
    show ?thesis
    proof (cases err)
      case (Some x)
      from "1.IH"(2)[OF True e[symmetric] Some "1.prems"] obtain cs2 p2 where
        "attemptLoop a c retries (i + 1) cs' (submits + 1) polls =
           (cs2, Some (timeoutError c), submits + 1 + nat (retries - (i + 1)), p2)" by blast
      with True e Some n show ?thesis
        by (subst attemptLoop.simps) simp
    next
      case None
      obtain b cs'' polls' where p: "pollLoop (GetCommandStatus a) cs' polls CheckInterval = (b, cs'', polls')"
        by (cases "pollLoop (GetCommandStatus a) cs' polls CheckInterval")
      with pollLoop_never[OF "1.prems", of cs' polls CheckInterval] have b: "b = False" by simp
      from p b have p': "(b, cs'', polls') = pollLoop (GetCommandStatus a) cs' polls CheckInterval"
        by simp
      from "1.IH"(1)[OF True e[symmetric] None p' b refl "1.prems"] obtain cs2 p2 where
        "attemptLoop a c retries (i + 1) cs'' (submits + 1) polls' =
           (cs2, Some (timeoutError c), submits + 1 + nat (retries - (i + 1)), p2)" by blast
      with True e None n p b show ?thesis
        by (subst attemptLoop.simps) simp
    qed
  qed
qed

text \<open>
  Claim C9, amended.  When the retry count is at least one, the first submission succeeds
  and poll \<open>N\<close> of the attempt, counted among all its polls, failed ones too, with \<open>N\<close>
  times the interval within the maximum wait, is the first to report the state
  "completed" without an error, \<open>ExecuteCommandAndWait\<close> returns that status and no error
  after exactly \<open>N\<close> polls and one submission.  When no poll ever reports "completed", it submits the command
  as many times as the retry count says and fails with the error that names the command
  as not completed.
\<close>

theorem ExecuteCommandAndWait_spec:
  "(1 \<le> retries \<and> ExecuteCommand a 0 c = (cs0, None) \<and>
    1 \<le> N \<and> int N * CheckInterval \<le> MaxTime \<and>
    (\<forall>k<N - 1. \<not> completedOk (pollAnswer (GetCommandStatus a) cs0 0 k)) \<and>
    completedOk (pollAnswer (GetCommandStatus a) cs0 0 (N - 1)) \<longrightarrow>
    ExecuteCommandAndWait a c retries =
      (fst (pollAnswer (GetCommandStatus a) cs0 0 (N - 1)), None, 1, N)) \<and>
   ((\<forall>k id. \<not> completedOk (GetCommandStatus a k id)) \<longrightarrow>
    (\<exists>cs polls. ExecuteCommandAndWait a c retries =
      (cs, Some (''timeout checking command '' @ cb_Name c @ '', not completed''),
       nat retries, polls)))"
proof (intro conjI impI)
  assume h: "1 \<le> retries \<and> ExecuteCommand a 0 c = (cs0, None) \<and>
    1 \<le> N \<and> int N * CheckInterval \<le> MaxTime \<and>
    (\<forall>k<N - 1. \<not> completedOk (pollAnswer (GetCommandStatus a) cs0 0 k)) \<and>
    completedOk (pollAnswer (GetCommandStatus a) cs0 0 (N - 1))"
  then obtain n where N: "N = Suc n" by (cases N) auto
  have "CheckInterval + int n * CheckInterval = int N * CheckInterval"
    by (simp add: N algebra_simps)
  with h have 1: "CheckInterval + int n * CheckInterval \<le> MaxTime" by simp
  from h N have 2: "\<forall>k<n. \<not> completedOk (pollAnswer (GetCommandStatus a) cs0 0 k)" by simp
  from h N have 3: "completedOk (pollAnswer (GetCommandStatus a) cs0 0 n)" by simp
  from pollLoop_completes[OF 1 2 3]
  have "pollLoop (GetCommandStatus a) cs0 0 CheckInterval =
     (True, fst (pollAnswer (GetCommandStatus a) cs0 0 n), Suc n)" by simp
  with h N show "ExecuteCommandAndWait a c retries =
      (fst (pollAnswer (GetCommandStatus a) cs0 0 (N - 1)), None, 1, N)"
    unfolding ExecuteCommandAndWait_def
    by (subst attemptLoop.simps) simp
next
  assume "\<forall>k id. \<not> completedOk (GetCommandStatus a k id)"
  from attemptLoop_never[OF this, of c retries 0 _ 0 0]
  show "\<exists>cs polls. ExecuteCommandAndWait a c retries =
      (cs, Some (''timeout checking command '' @ cb_Name c @ '', not completed''),
       nat retries, polls)"
    unfolding ExecuteCommandAndWait_def timeoutError_def by simp
qed

theorem ExecuteCommandAndWait_spec_witness:
  "ExecuteCommandAndWait ex_remote ex_cmd 3 = (ex_status ''completed'', None, 1, 3) \<and>
   (\<exists>cs polls. ExecuteCommandAndWait ex_remote_never ex_cmd 3 =
      (cs, Some ''timeout checking command RescanSeries, not completed'', 3, polls))"
proof -
  have 1: "ExecuteCommand ex_remote 0 ex_cmd = (ex_status ''queued'', None)"
    by (simp add: ex_remote_def)
  have 2: "int 3 * CheckInterval \<le> MaxTime" by (simp add: CheckInterval_def MaxTime_def)
  have a0: "pollAnswer (GetCommandStatus ex_remote) (ex_status ''queued'') 0 0 =
      (\<lparr>cs_ID = 0, cs_State = [], cs_Name = []\<rparr>, Some ''EOF'')"
    by (simp add: ex_remote_def)
  have a1: "pollAnswer (GetCommandStatus ex_remote) (ex_status ''queued'') 0 (Suc 0) =
      (ex_status ''started'', None)"
    by (simp add: ex_remote_def)
  have a2: "pollAnswer (GetCommandStatus ex_remote) (ex_status ''queued'') 0 (Suc (Suc 0)) =
      (ex_status ''completed'', None)"
    by (simp add: ex_remote_def)
  have 3: "\<forall>k<3 - 1. \<not> completedOk (pollAnswer (GetCommandStatus ex_remote) (ex_status ''queued'') 0 k)"
  proof (intro allI impI)
    fix k :: nat assume "k < 3 - 1"
    then have "k = 0 \<or> k = Suc 0" by arith
    then show "\<not> completedOk (pollAnswer (GetCommandStatus ex_remote) (ex_status ''queued'') 0 k)"
      using a0 a1 by (auto simp: completedOk_def ex_status_def CommandStateCompleted_def)
  qed
  have 32: "(3::nat) - 1 = Suc (Suc 0)" by simp
  have 4: "completedOk (pollAnswer (GetCommandStatus ex_remote) (ex_status ''queued'') 0 (3 - 1))"
    unfolding 32 a2 by (simp add: completedOk_def ex_status_def CommandStateCompleted_def)
  have 5: "\<forall>k id. \<not> completedOk (GetCommandStatus ex_remote_never k id)"
    by (simp add: ex_remote_never_def completedOk_def ex_status_def CommandStateCompleted_def)
  have first: "ExecuteCommandAndWait ex_remote ex_cmd 3 = (ex_status ''completed'', None, 1, 3)"
    using ExecuteCommandAndWait_spec[of 3 ex_remote ex_cmd "ex_status ''queued''" 3] 1 2 3 4
    by (simp only: 32 a2 fst_conv) simp
  have second: "\<exists>cs polls. ExecuteCommandAndWait ex_remote_never ex_cmd 3 =
      (cs, Some ''timeout checking command RescanSeries, not completed'', 3, polls)"
    using ExecuteCommandAndWait_spec[of 3 ex_remote_never ex_cmd "ex_status ''queued''" 3] 5
    by (simp add: ex_cmd_def)
  from first second show ?thesis by simp
qed

text \<open>
  Claim C9 counts the successful polls.  A poll that fails is a poll all the same: when
  the first poll fails and the second reports "completed", the first successful poll
  reports it, and the function returns after two polls, not one.
\<close>

theorem ExecuteCommandAndWait_counterexample:
  "ExecuteCommand ex_remote_retry 0 ex_cmd = (ex_status ''queued'', None) \<and>
   snd (GetCommandStatus ex_remote_retry 0 42) = Some ''EOF'' \<and>
   GetCommandStatus ex_remote_retry 1 0 = (ex_status ''completed'', None) \<and>
   cs_State (ex_status ''completed'') = CommandStateCompleted \<and>
   1 * CheckInterval \<le> MaxTime \<and>
   ExecuteCommandAndWait ex_remote_retry ex_cmd 3 = (ex_status ''completed'', None, 1, 2)"
proof -
  have p: "pollLoop (GetCommandStatus ex_remote_retry) (ex_status ''queued'') 0 CheckInterval =
      (True, ex_status ''completed'', 2)"
    by (simp add: pollLoop_run pollLoop_stop completedOk_def ex_remote_retry_def ex_status_def
        CommandStateCompleted_def CheckInterval_def MaxTime_def)
  have e: "ExecuteCommand ex_remote_retry 0 ex_cmd = (ex_status ''queued'', None)"
    by (simp add: ex_remote_retry_def)
  have "ExecuteCommandAndWait ex_remote_retry ex_cmd 3 = (ex_status ''completed'', None, 1, 2)"
    unfolding ExecuteCommandAndWait_def
    by (subst attemptLoop.simps) (simp add: e p)
  then show ?thesis
    by (simp add: ex_remote_retry_def ex_status_def CommandStateCompleted_def
        CheckInterval_def MaxTime_def)
qed

section \<open>Properties of the cleanup\<close>

lemma failuresFrom_Nil: "failuresFrom del k [] = []"
  by (simp add: failuresFrom_def)

lemma failuresFrom_Cons:
  "failuresFrom del k (x # xs) =
     (case del k x of Some err \<Rightarrow> [err] | None \<Rightarrow> []) @ failuresFrom del (Suc k) xs"
  by (simp add: failuresFrom_def upt_conv_Cons del: upt_Suc)

lemma cleanLoop_spec:
  "cleanLoop det del ms (errors, ids) =
     (errors @ failuresFrom del (length ids) (toDelete det ms), ids @ toDelete det ms)"
proof (induction ms arbitrary: errors ids)
  case Nil
  show ?case by (simp add: toDelete_def failuresFrom_Nil)
next
  case (Cons s ms)
  show ?case
  proof (cases "HasBeenRenamed s \<and> det s")
    case False
    then have "toDelete det (s # ms) = toDelete det ms" by (auto simp: toDelete_def)
    with False Cons show ?thesis by auto
  next
    case True
    then have t: "toDelete det (s # ms) = q_ID (QueueElement s) # toDelete det ms"
      by (simp add: toDelete_def)
    show ?thesis
      using True by (cases "del (length ids) (q_ID (QueueElement s))")
        (simp_all add: Cons t failuresFrom_Cons)
  qed
qed

lemma strings_Join_closed:
  "xs \<noteq> [] \<Longrightarrow> strings_Join xs sep = concat (map (\<lambda>x. x @ sep) (butlast xs)) @ last xs"
  by (induction xs) auto

text \<open>
  Claim C8.  In the cleanup that follows a rescan without error, \<open>DeleteQueueItem\<close> is
  called for every item that has been renamed and is detected, in order, whatever the
  earlier calls returned; the messages of all the calls that fail are collected, and the
  result is one error whose text is every message in order, each but the last followed by
  a comma and a space, or no error when no call failed.
\<close>

theorem CleanFixedShows_spec:
  "CleanFixedShows None HasBeenDetected DeleteQueueItem mediaFiles =
     (if failuresFrom DeleteQueueItem 0 (toDelete HasBeenDetected mediaFiles) = [] then None
      else Some
        (concat (map (\<lambda>message. message @ '', '')
                   (butlast (failuresFrom DeleteQueueItem 0 (toDelete HasBeenDetected mediaFiles))))
         @ last (failuresFrom DeleteQueueItem 0 (toDelete HasBeenDetected mediaFiles))),
      toDelete HasBeenDetected mediaFiles)"
  by (simp add: CleanFixedShows_def cleanLoop_spec strings_Join_closed)

theorem CleanFixedShows_spec_witness:
  "CleanFixedShows None (\<lambda>s. True) ex_delete [ex_media 1, ex_media 2, ex_media 3, ex_media 4] =
     (Some (''error deleting item from queue, status code 500'' @ '', '' @
            ''error deleting item from queue, status code 404''), [1, 2, 3, 4]) \<and>
   CleanFixedShows None (\<lambda>s. True) ex_delete [ex_media 1, ex_media 2, ex_media 3] =
     (Some ''error deleting item from queue, status code 500'', [1, 2, 3]) \<and>
   CleanFixedShows None (\<lambda>s. q_ID (QueueElement s) \<noteq> 2) ex_delete
       [ex_media 1, ex_media 2, (ex_media 4)\<lparr>HasBeenRenamed := False\<rparr>, ex_media 3] =
     (None, [1, 3])"
proof -
  have 1: "toDelete (\<lambda>s. True) [ex_media 1, ex_media 2, ex_media 3, ex_media 4] = [1, 2, 3, 4]"
    by (simp add: toDelete_def ex_media_def)
  have 2: "toDelete (\<lambda>s. True) [ex_media 1, ex_media 2, ex_media 3] = [1, 2, 3]"
    by (simp add: toDelete_def ex_media_def)
  have 3: "toDelete (\<lambda>s. q_ID (QueueElement s) \<noteq> 2)
       [ex_media 1, ex_media 2, (ex_media 4)\<lparr>HasBeenRenamed := False\<rparr>, ex_media 3] = [1, 3]"
    by (simp add: toDelete_def ex_media_def)
  have 4: "failuresFrom ex_delete 0 [1, 2, 3, 4] =
      [''error deleting item from queue, status code 500'',
       ''error deleting item from queue, status code 404'']"
    by (simp add: failuresFrom_Cons failuresFrom_Nil ex_delete_def)
  have 5: "failuresFrom ex_delete 0 [1, 2, 3] = [''error deleting item from queue, status code 500'']"
    by (simp add: failuresFrom_Cons failuresFrom_Nil ex_delete_def)
  have 6: "failuresFrom ex_delete 0 [1, 3] = []"
    by (simp add: failuresFrom_Cons failuresFrom_Nil ex_delete_def)
  show ?thesis
    using CleanFixedShows_spec[of "\<lambda>s. True" ex_delete
          "[ex_media 1, ex_media 2, ex_media 3, ex_media 4]"]
      CleanFixedShows_spec[of "\<lambda>s. True" ex_delete "[ex_media 1, ex_media 2, ex_media 3]"]
      CleanFixedShows_spec[of "\<lambda>s. q_ID (QueueElement s) \<noteq> 2" ex_delete
          "[ex_media 1, ex_media 2, (ex_media 4)\<lparr>HasBeenRenamed := False\<rparr>, ex_media 3]"]
    by (simp add: 1 2 3 4 5 6)
qed

lemma CleanFixedShows_rescan_failed:
  "CleanFixedShows (Some err) HasBeenDetected DeleteQueueItem mediaFiles = (Some err, [])"
  by (simp add: CleanFixedShows_def)

end
